theory Spec2Isabelle
  imports Main "HOL-Library.Word"
begin

section \<open>JavaScript strings\<close>

text \<open>
  A JavaScript string is a sequence of UTF-16 code units; \<open>jsonString[i]\<close>,
  \<open>slice\<close> and the regular expression \<open>/\S/g\<close> (no \<open>u\<close> flag) all work on
  code units.
\<close>

type_synonym code_unit = "16 word"
type_synonym jsstring = "code_unit list"

abbreviation TAB :: code_unit where "TAB \<equiv> 0x09"
abbreviation LF :: code_unit where "LF \<equiv> 0x0A"
abbreviation FF :: code_unit where "FF \<equiv> 0x0C"
abbreviation CR :: code_unit where "CR \<equiv> 0x0D"
abbreviation SPACE :: code_unit where "SPACE \<equiv> 0x20"
abbreviation QUOTE :: code_unit where "QUOTE \<equiv> 0x22"
abbreviation STAR :: code_unit where "STAR \<equiv> 0x2A"
abbreviation COMMA :: code_unit where "COMMA \<equiv> 0x2C"
abbreviation SLASH :: code_unit where "SLASH \<equiv> 0x2F"
abbreviation BACKSLASH :: code_unit where "BACKSLASH \<equiv> 0x5C"
abbreviation RBRACKET :: code_unit where "RBRACKET \<equiv> 0x5D"
abbreviation RBRACE :: code_unit where "RBRACE \<equiv> 0x7D"

text \<open>An ASCII literal as a JavaScript string.\<close>

definition js :: "string \<Rightarrow> jsstring" where
  "js cs = map (\<lambda>c. of_char c) cs"

text \<open>
  \<open>jsonString[i]\<close>: the code unit at \<open>i\<close>, or \<open>undefined\<close> (here \<open>None\<close>) when
  \<open>i\<close> is negative or past the end.
\<close>

definition charAt :: "jsstring \<Rightarrow> int \<Rightarrow> code_unit option" where
  "charAt s i = (if 0 \<le> i \<and> i < int (length s) then Some (s ! nat i) else None)"

text \<open>
  \<open>string.slice(start, stop)\<close> for non-negative arguments: both are clamped to the
  length, and the result is empty when \<open>stop \<le> start\<close>. \<open>string.slice(start)\<close>
  runs to the end.
\<close>

definition slice_str :: "jsstring \<Rightarrow> nat \<Rightarrow> nat \<Rightarrow> jsstring" where
  "slice_str s start stop = take (stop - start) (drop start s)"

definition sliceFrom :: "jsstring \<Rightarrow> nat \<Rightarrow> jsstring" where
  "sliceFrom s start = drop start s"

text \<open>
  The code units the regular expression class \<open>\s\<close> matches (ECMAScript WhiteSpace
  and LineTerminator); \<open>\S\<close> matches every other code unit.
\<close>

definition isWhitespace :: "code_unit \<Rightarrow> bool" where
  "isWhitespace c \<longleftrightarrow>
     c = 0x09 \<or> c = 0x0A \<or> c = 0x0B \<or> c = 0x0C \<or> c = 0x0D \<or> c = 0x20 \<or> c = 0xA0
     \<or> c = 0x1680 \<or> (0x2000 \<le> c \<and> c \<le> 0x200A) \<or> c = 0x2028 \<or> c = 0x2029
     \<or> c = 0x202F \<or> c = 0x205F \<or> c = 0x3000 \<or> c = 0xFEFF"

section \<open>The comment stripper of src/index.js\<close>

text \<open>\<open>isInsideComment\<close> is \<open>false\<close>, or one of the two symbols.\<close>

datatype comment_state = NoComment | singleComment | multiComment

definition stripWithoutWhitespace :: "jsstring \<Rightarrow> nat \<Rightarrow> nat \<Rightarrow> jsstring" where
  "stripWithoutWhitespace string start stop = []"

definition stripWithWhitespace :: "jsstring \<Rightarrow> nat \<Rightarrow> nat \<Rightarrow> jsstring" where
  "stripWithWhitespace string start stop =
     map (\<lambda>c. if isWhitespace c then c else SPACE) (slice_str string start stop)"

text \<open>\<open>const strip = whitespace ? stripWithWhitespace : stripWithoutWhitespace\<close>\<close>

definition strip :: "bool \<Rightarrow> jsstring \<Rightarrow> nat \<Rightarrow> nat \<Rightarrow> jsstring" where
  "strip whitespace = (if whitespace then stripWithWhitespace else stripWithoutWhitespace)"

text \<open>
  The call \<open>strip(jsonString.slice(offset))\<close> of the return statement passes no
  \<open>start\<close> and no \<open>end\<close>; \<open>slice(undefined, undefined)\<close> is the whole string.
\<close>

definition stripAll :: "bool \<Rightarrow> jsstring \<Rightarrow> jsstring" where
  "stripAll whitespace string = strip whitespace string 0 (length string)"

text \<open>The \<open>while\<close> loop of \<open>isEscaped\<close>, walking backwards over backslashes.\<close>

function isEscaped_loop :: "jsstring \<Rightarrow> int \<Rightarrow> nat \<Rightarrow> nat" where
  "isEscaped_loop jsonString index backslashCount =
     (if charAt jsonString index = Some BACKSLASH
      then isEscaped_loop jsonString (index - 1) (backslashCount + 1)
      else backslashCount)"
  by pat_completeness auto
termination
  by (relation "measure (\<lambda>(s, index, n). nat (index + 1))")
    (auto simp: charAt_def split: if_splits)

declare isEscaped_loop.simps [simp del]

definition isEscaped :: "jsstring \<Rightarrow> nat \<Rightarrow> bool" where
  "isEscaped jsonString quotePosition =
     (isEscaped_loop jsonString (int quotePosition - 1) 0 mod 2 \<noteq> 0)"

text \<open>The mutable variables of \<open>stripJsonComments\<close>; \<open>commaIndex\<close> is \<open>-1\<close> when no comma is pending.\<close>

record scan_state =
  isInsideString :: bool
  isInsideComment :: comment_state
  offset :: nat
  buffer :: jsstring
  result :: jsstring
  commaIndex :: int

definition initial :: scan_state where
  "initial = \<lparr>isInsideString = False, isInsideComment = NoComment, offset = 0,
     buffer = [], result = [], commaIndex = -1\<rparr>"

text \<open>
  One pass through the body of the \<open>for\<close> loop at \<open>index\<close>. It returns the index as
  the body leaves it (some branches do \<open>index++\<close>) and the updated variables; the
  loop header's own \<open>index++\<close> follows, also after \<open>continue\<close>.
  \<open>currentCharacter + nextCharacter === '//'\<close> holds exactly when both code units
  are there and are the two of the literal: with \<open>nextCharacter\<close> undefined the
  concatenation ends in the text \<open>undefined\<close>.
\<close>

definition body :: "jsstring \<Rightarrow> bool \<Rightarrow> bool \<Rightarrow> nat \<Rightarrow> scan_state \<Rightarrow> nat \<times> scan_state" where
  "body jsonString whitespace trailingCommas index st0 =
    (let currentCharacter = charAt jsonString (int index);
         nextCharacter = charAt jsonString (int index + 1);
         st = (if isInsideComment st0 = NoComment \<and> currentCharacter = Some QUOTE
                  \<and> \<not> isEscaped jsonString index
               then st0\<lparr>isInsideString := \<not> isInsideString st0\<rparr> else st0)
     in
     if isInsideString st then (index, st)
     else if isInsideComment st = NoComment
          \<and> currentCharacter = Some SLASH \<and> nextCharacter = Some SLASH then
       (index + 1,
        st\<lparr>buffer := buffer st @ slice_str jsonString (offset st) index,
           offset := index, isInsideComment := singleComment\<rparr>)
     else if isInsideComment st = singleComment
          \<and> currentCharacter = Some CR \<and> nextCharacter = Some LF then
       (index + 1,
        st\<lparr>isInsideComment := NoComment,
           buffer := buffer st @ strip whitespace jsonString (offset st) (index + 1),
           offset := index + 1\<rparr>)
     else if isInsideComment st = singleComment \<and> currentCharacter = Some LF then
       (index,
        st\<lparr>isInsideComment := NoComment,
           buffer := buffer st @ strip whitespace jsonString (offset st) index,
           offset := index\<rparr>)
     else if isInsideComment st = NoComment
          \<and> currentCharacter = Some SLASH \<and> nextCharacter = Some STAR then
       (index + 1,
        st\<lparr>buffer := buffer st @ slice_str jsonString (offset st) index,
           offset := index, isInsideComment := multiComment\<rparr>)
     else if isInsideComment st = multiComment
          \<and> currentCharacter = Some STAR \<and> nextCharacter = Some SLASH then
       (index + 1,
        st\<lparr>isInsideComment := NoComment,
           buffer := buffer st @ strip whitespace jsonString (offset st) (index + 1 + 1),
           offset := index + 1 + 1\<rparr>)
     else if trailingCommas \<and> isInsideComment st = NoComment then
       (if commaIndex st \<noteq> -1 then
          (if currentCharacter = Some RBRACE \<or> currentCharacter = Some RBRACKET then
             (let buf = buffer st @ slice_str jsonString (offset st) index in
              (index,
               st\<lparr>result := result st @ strip whitespace buf 0 1 @ sliceFrom buf 1,
                  buffer := [], offset := index, commaIndex := -1\<rparr>))
           else if currentCharacter \<noteq> Some SPACE \<and> currentCharacter \<noteq> Some TAB
                \<and> currentCharacter \<noteq> Some CR \<and> currentCharacter \<noteq> Some LF then
             (index,
              st\<lparr>buffer := buffer st @ slice_str jsonString (offset st) index,
                 offset := index, commaIndex := -1\<rparr>)
           else (index, st))
        else if currentCharacter = Some COMMA then
          (index,
           st\<lparr>result := result st @ buffer st @ slice_str jsonString (offset st) index,
              buffer := [], offset := index, commaIndex := int index\<rparr>)
        else (index, st))
     else (index, st))"

lemma body_index: "index \<le> fst (body jsonString whitespace trailingCommas index st)"
  by (simp add: body_def Let_def)

text \<open>\<open>for (let index = 0; index < jsonString.length; index++)\<close>\<close>

function loop :: "jsstring \<Rightarrow> bool \<Rightarrow> bool \<Rightarrow> nat \<Rightarrow> scan_state \<Rightarrow> scan_state" where
  "loop jsonString whitespace trailingCommas index st =
     (if index < length jsonString
      then loop jsonString whitespace trailingCommas
             (fst (body jsonString whitespace trailingCommas index st) + 1)
             (snd (body jsonString whitespace trailingCommas index st))
      else st)"
  by pat_completeness auto
termination
proof (relation "measure (\<lambda>(s, ws, tc, index, st). length s - index)")
  show "wf (measure (\<lambda>(s, ws, tc, index, st). length s - index))"
    by simp
next
  fix jsonString :: jsstring and whitespace trailingCommas index and st :: scan_state
  assume "index < length jsonString"
  moreover have "index \<le> fst (body jsonString whitespace trailingCommas index st)"
    by (rule body_index)
  ultimately show "((jsonString, whitespace, trailingCommas,
        fst (body jsonString whitespace trailingCommas index st) + 1,
        snd (body jsonString whitespace trailingCommas index st)),
      (jsonString, whitespace, trailingCommas, index, st))
      \<in> measure (\<lambda>(s, ws, tc, index, st). length s - index)"
    by simp
qed

declare loop.simps [simp del]

text \<open>The return statement, applied to the variables the loop leaves.\<close>

definition finish :: "jsstring \<Rightarrow> bool \<Rightarrow> scan_state \<Rightarrow> jsstring" where
  "finish jsonString whitespace st =
     result st @ buffer st @
       (if isInsideComment st \<noteq> NoComment
        then stripAll whitespace (sliceFrom jsonString (offset st))
        else sliceFrom jsonString (offset st))"

text \<open>\<open>stripJsonComments\<close> once its argument is known to be a string.\<close>

definition stripString :: "jsstring \<Rightarrow> bool \<Rightarrow> bool \<Rightarrow> jsstring" where
  "stripString jsonString whitespace trailingCommas =
     finish jsonString whitespace (loop jsonString whitespace trailingCommas 0 initial)"

text \<open>
  The values a caller can pass, by what \<open>typeof\<close> says of them, and the one
  exception the function throws. The options are taken as the two booleans the
  destructuring pattern \<open>{ whitespace = true, trailingCommas = false } = {}\<close>
  binds; \<open>stripDefault\<close> is the call with no options.
\<close>

datatype js_value =
  JSUndefined | JSNull | JSBoolean bool | JSNumber int | JSString jsstring | JSObject

fun typeof :: "js_value \<Rightarrow> string" where
  "typeof JSUndefined = ''undefined''"
| "typeof JSNull = ''object''"
| "typeof (JSBoolean b) = ''boolean''"
| "typeof (JSNumber n) = ''number''"
| "typeof (JSString s) = ''string''"
| "typeof JSObject = ''object''"

datatype error = TypeError

definition stripJsonComments :: "js_value \<Rightarrow> bool \<Rightarrow> bool \<Rightarrow> error + jsstring" where
  "stripJsonComments jsonString whitespace trailingCommas =
     (case jsonString of
        JSString s \<Rightarrow> Inr (stripString s whitespace trailingCommas)
      | _ \<Rightarrow> Inl TypeError)"

definition stripDefault :: "js_value \<Rightarrow> error + jsstring" where
  "stripDefault jsonString = stripJsonComments jsonString True False"

section \<open>Escape parity\<close>

text \<open>
  The number of consecutive backslashes immediately before position \<open>i\<close>, read off
  the string itself.
\<close>

definition precedingBackslashes :: "jsstring \<Rightarrow> nat \<Rightarrow> nat" where
  "precedingBackslashes s i = length (takeWhile (\<lambda>c. c = BACKSLASH) (rev (take i s)))"

lemma precedingBackslashes_0: "precedingBackslashes s 0 = 0"
  by (simp add: precedingBackslashes_def)

lemma precedingBackslashes_Suc:
  "i < length s \<Longrightarrow> precedingBackslashes s (Suc i) =
     (if s ! i = BACKSLASH then Suc (precedingBackslashes s i) else 0)"
  by (simp add: precedingBackslashes_def take_Suc_conv_app_nth)

lemma isEscaped_loop_count:
  "i \<le> length s \<Longrightarrow> isEscaped_loop s (int i - 1) n = n + precedingBackslashes s i"
proof (induction i arbitrary: n)
  case 0
  show ?case
    by (subst isEscaped_loop.simps) (simp add: charAt_def precedingBackslashes_0)
next
  case (Suc i)
  then have lt: "i < length s" by simp
  have IH: "\<And>m. isEscaped_loop s (int i - 1) m = m + precedingBackslashes s i"
    using Suc.IH lt by simp
  have "int (Suc i) - 1 - 1 = int i - 1" by simp
  then show ?case
    by (subst isEscaped_loop.simps)
      (simp add: charAt_def lt precedingBackslashes_Suc IH)
qed

lemma isEscaped_odd:
  "i \<le> length s \<Longrightarrow> isEscaped s i = odd (precedingBackslashes s i)"
  by (simp add: isEscaped_def isEscaped_loop_count odd_iff_mod_2_eq_one)

lemma body_isInsideString:
  "isInsideString (snd (body s ws tc i st)) =
     (if isInsideComment st = NoComment \<and> charAt s (int i) = Some QUOTE \<and> \<not> isEscaped s i
      then \<not> isInsideString st else isInsideString st)"
  by (simp add: body_def Let_def)

text \<open>
  C7. A quote met outside a comment toggles \<open>isInsideString\<close> exactly when the
  number of consecutive backslashes immediately before it is even; with an odd
  number the quote is escaped and the flag stays as it was.
\<close>

theorem escape_parity:
  assumes "charAt jsonString (int index) = Some QUOTE"
    and "isInsideComment st = NoComment"
  shows "(isInsideString (snd (body jsonString whitespace trailingCommas index st))
            \<noteq> isInsideString st)
         = even (precedingBackslashes jsonString index)"
proof -
  from assms(1) have "index < length jsonString"
    by (simp add: charAt_def split: if_splits)
  then have "isEscaped jsonString index = odd (precedingBackslashes jsonString index)"
    by (simp add: isEscaped_odd)
  with assms show ?thesis
    by (simp add: body_isInsideString)
qed

theorem escape_parity_witness:
  "charAt [BACKSLASH, BACKSLASH, QUOTE] 2 = Some QUOTE
   \<and> charAt [BACKSLASH, QUOTE] 1 = Some QUOTE
   \<and> isInsideComment initial = NoComment
   \<and> precedingBackslashes [BACKSLASH, BACKSLASH, QUOTE] 2 = 2
   \<and> precedingBackslashes [BACKSLASH, QUOTE] 1 = 1
   \<and> isInsideString (snd (body [BACKSLASH, BACKSLASH, QUOTE] True False 2 initial))
   \<and> \<not> isInsideString (snd (body [BACKSLASH, QUOTE] True False 1 initial))"
  using escape_parity [of "[BACKSLASH, BACKSLASH, QUOTE]" 2 initial True False]
    escape_parity [of "[BACKSLASH, QUOTE]" 1 initial True False]
  by (simp add: charAt_def initial_def precedingBackslashes_def)

section \<open>The error surface\<close>

text \<open>
  C8. The call fails, with the one TypeError and no output, exactly when
  \<open>typeof\<close> of the argument is not \<open>string\<close>; for a string argument, whatever its
  contents, the loop terminates and the call returns a string.
\<close>

theorem error_surface:
  "(stripJsonComments v whitespace trailingCommas = Inl TypeError) = (typeof v \<noteq> ''string'')
   \<and> isl (stripJsonComments v whitespace trailingCommas) = (typeof v \<noteq> ''string'')
   \<and> stripJsonComments (JSString s) whitespace trailingCommas
       = Inr (stripString s whitespace trailingCommas)"
  by (cases v) (simp_all add: stripJsonComments_def)

section \<open>The scan, one code unit at a time\<close>

text \<open>
  An auxiliary formulation of the loop, used in the proofs only: a function over
  the rest of the input that carries the mode (outside, inside a string, inside a
  line or block comment), the parity \<open>p\<close> of the backslashes just before the cursor,
  whether a comma is pending (\<open>cand\<close>), and \<open>pend\<close>, the text not yet moved to
  \<open>result\<close>. Theorem \<open>stripString_scanner\<close> proves it equal to \<open>stripString\<close>, so
  every statement below is a statement about the loop of the source.
\<close>

datatype mode = Normal | InString | InLineComment | InBlockComment

definition blank :: "code_unit \<Rightarrow> code_unit" where
  "blank c = (if isWhitespace c then c else SPACE)"

definition erase :: "bool \<Rightarrow> jsstring \<Rightarrow> jsstring" where
  "erase ws cs = (if ws then map blank cs else [])"

definition stripFirst :: "bool \<Rightarrow> jsstring \<Rightarrow> jsstring" where
  "stripFirst ws buf = erase ws (take 1 buf) @ drop 1 buf"

definition lookahead :: "jsstring \<Rightarrow> code_unit option" where
  "lookahead xs = (case xs of [] \<Rightarrow> None | d # ds \<Rightarrow> Some d)"

definition jsonSpace :: "code_unit \<Rightarrow> bool" where
  "jsonSpace c \<longleftrightarrow> c = SPACE \<or> c = TAB \<or> c = CR \<or> c = LF"

definition plain :: "bool \<Rightarrow> bool \<Rightarrow> bool \<Rightarrow> jsstring \<Rightarrow> code_unit \<Rightarrow> jsstring \<times> bool \<times> jsstring" where
  "plain ws tc cand pend c =
    (if tc then
       (if cand then
          (if c = RBRACE \<or> c = RBRACKET then (stripFirst ws pend, False, [c])
           else if \<not> jsonSpace c then ([], False, pend @ [c])
           else ([], True, pend @ [c]))
        else if c = COMMA then (pend, True, [c])
        else ([], False, pend @ [c]))
     else ([], cand, pend @ [c]))"

function (sequential) scanner ::
  "bool \<Rightarrow> bool \<Rightarrow> mode \<Rightarrow> bool \<Rightarrow> bool \<Rightarrow> jsstring \<Rightarrow> jsstring \<Rightarrow> jsstring" where
  "scanner ws tc m p cand pend [] = pend"
| "scanner ws tc Normal p cand pend (c # xs) =
     (if c = QUOTE \<and> \<not> p then scanner ws tc InString False cand (pend @ [c]) xs
      else if c = SLASH \<and> lookahead xs = Some SLASH then
        scanner ws tc InLineComment False cand (pend @ erase ws [c, SLASH]) (tl xs)
      else if c = SLASH \<and> lookahead xs = Some STAR then
        scanner ws tc InBlockComment False cand (pend @ erase ws [c, STAR]) (tl xs)
      else fst (plain ws tc cand pend c)
           @ scanner ws tc Normal (c = BACKSLASH \<and> \<not> p)
               (fst (snd (plain ws tc cand pend c))) (snd (snd (plain ws tc cand pend c))) xs)"
| "scanner ws tc InString p cand pend (c # xs) =
     (if c = QUOTE \<and> \<not> p then scanner ws tc Normal False False (pend @ [c]) xs
      else scanner ws tc InString (c = BACKSLASH \<and> \<not> p) cand (pend @ [c]) xs)"
| "scanner ws tc InLineComment p cand pend (c # xs) =
     (if c = CR \<and> lookahead xs = Some LF then
        scanner ws tc Normal False cand (pend @ erase ws [c] @ [LF]) (tl xs)
      else if c = LF then scanner ws tc Normal False cand (pend @ [c]) xs
      else scanner ws tc InLineComment (c = BACKSLASH \<and> \<not> p) cand (pend @ erase ws [c]) xs)"
| "scanner ws tc InBlockComment p cand pend (c # xs) =
     (if c = STAR \<and> lookahead xs = Some SLASH then
        scanner ws tc Normal False cand (pend @ erase ws [c, SLASH]) (tl xs)
      else scanner ws tc InBlockComment (c = BACKSLASH \<and> \<not> p) cand (pend @ erase ws [c]) xs)"
  by pat_completeness auto
termination
  by (relation "measure (\<lambda>(ws, tc, m, p, cand, pend, xs). length xs)") auto

declare scanner.simps [simp del]

text \<open>
  How the variables of the loop at \<open>index = i\<close> are read as a state of \<open>scanner\<close>,
  and the facts about them that every iteration keeps.
\<close>

definition modeOf :: "scan_state \<Rightarrow> mode" where
  "modeOf st = (case isInsideComment st of
      NoComment \<Rightarrow> (if isInsideString st then InString else Normal)
    | singleComment \<Rightarrow> InLineComment
    | multiComment \<Rightarrow> InBlockComment)"

definition pendOf :: "bool \<Rightarrow> jsstring \<Rightarrow> nat \<Rightarrow> scan_state \<Rightarrow> jsstring" where
  "pendOf ws s i st = buffer st @
     (if isInsideComment st = NoComment then slice_str s (offset st) i
      else strip ws s (offset st) i)"

definition Inv :: "jsstring \<Rightarrow> bool \<Rightarrow> nat \<Rightarrow> scan_state \<Rightarrow> bool" where
  "Inv s tc i st \<longleftrightarrow> offset st \<le> i \<and> i \<le> length s
     \<and> (isInsideComment st = NoComment \<or> \<not> isInsideString st)
     \<and> (commaIndex st = -1 \<or> tc)"

definition absScan :: "bool \<Rightarrow> bool \<Rightarrow> jsstring \<Rightarrow> nat \<Rightarrow> scan_state \<Rightarrow> jsstring" where
  "absScan ws tc s i st = result st @
     scanner ws tc (modeOf st) (isEscaped s i) (commaIndex st \<noteq> -1) (pendOf ws s i st) (drop i s)"

lemma charAt_nth: "i < length s \<Longrightarrow> charAt s (int i) = Some (s ! i)"
  by (simp add: charAt_def)

lemma charAt_next: "charAt s (int i + 1) = lookahead (drop (Suc i) s)"
proof (cases "Suc i < length s")
  case True
  then have "drop (Suc i) s = s ! Suc i # drop (Suc (Suc i)) s"
    by (simp add: Cons_nth_drop_Suc)
  with True show ?thesis
    by (simp add: charAt_def lookahead_def nat_add_distrib)
next
  case False
  then show ?thesis by (simp add: charAt_def lookahead_def)
qed

lemma strip_erase: "strip ws s a b = erase ws (slice_str s a b)"
  by (simp add: strip_def erase_def stripWithWhitespace_def stripWithoutWhitespace_def blank_def)

lemma erase_append: "erase ws (xs @ ys) = erase ws xs @ erase ws ys"
  by (simp add: erase_def)

lemma erase_Nil: "erase ws [] = []"
  by (simp add: erase_def)

lemma slice_snoc: "a \<le> i \<Longrightarrow> i < length s \<Longrightarrow> slice_str s a (Suc i) = slice_str s a i @ [s ! i]"
proof -
  assume a: "a \<le> i" and i: "i < length s"
  have "take (Suc i - a) (drop a s) = take (Suc (i - a)) (drop a s)"
    using a by (simp add: Suc_diff_le)
  also have "\<dots> = take (i - a) (drop a s) @ [drop a s ! (i - a)]"
    using a i by (simp add: take_Suc_conv_app_nth)
  finally show ?thesis using a i by (simp add: slice_str_def)
qed

lemma slice_same: "slice_str s i i = []"
  by (simp add: slice_str_def)

lemma isEscaped_Suc:
  "i < length s \<Longrightarrow> isEscaped s (Suc i) = (s ! i = BACKSLASH \<and> \<not> isEscaped s i)"
  by (simp add: isEscaped_odd precedingBackslashes_Suc)

lemma lookahead_drop:
  "lookahead (drop (Suc i) s) = Some d \<Longrightarrow> Suc i < length s \<and> s ! Suc i = d"
  by (cases "Suc i < length s") (simp_all add: lookahead_def Cons_nth_drop_Suc [symmetric])

lemma tl_drop_Suc: "tl (drop n s) = drop (Suc n) s"
  by (simp add: drop_Suc drop_tl)

lemma slice_snoc2:
  "a \<le> i \<Longrightarrow> Suc i < length s \<Longrightarrow>
     slice_str s a (Suc (Suc i)) = slice_str s a i @ [s ! i, s ! Suc i]"
  by (simp add: slice_snoc)

lemma slice_one: "i < length s \<Longrightarrow> slice_str s i (Suc i) = [s ! i]"
  using slice_snoc [of i i s] by (simp add: slice_same)

lemma stripFirst_strip: "strip ws buf 0 (Suc 0) @ sliceFrom buf (Suc 0) = stripFirst ws buf"
  by (simp add: strip_erase stripFirst_def slice_str_def sliceFrom_def)

lemma stripFirst_erase:
  "erase ws (slice_str buf 0 (Suc 0)) @ sliceFrom buf (Suc 0) = stripFirst ws buf"
  by (simp add: stripFirst_def slice_str_def sliceFrom_def)

lemmas sim_simps = body_def Let_def charAt_nth charAt_next absScan_def modeOf_def pendOf_def
  scanner.simps Inv_def slice_snoc slice_snoc2 isEscaped_Suc slice_same slice_one plain_def
  jsonSpace_def stripFirst_strip stripFirst_erase tl_drop_Suc strip_erase erase_append erase_Nil

lemma sim_string:
  assumes inv: "Inv s tc i st" and lt: "i < length s"
    and m: "isInsideComment st = NoComment" "isInsideString st"
  shows "Inv s tc (fst (body s ws tc i st) + 1) (snd (body s ws tc i st))
     \<and> absScan ws tc s (fst (body s ws tc i st) + 1) (snd (body s ws tc i st))
       = absScan ws tc s i st"
proof -
  have d: "drop i s = s ! i # drop (Suc i) s"
    using lt by (simp add: Cons_nth_drop_Suc)
  have o: "offset st \<le> i" using inv by (simp add: Inv_def)
  have t: "commaIndex st = -1 \<or> tc" using inv by (simp add: Inv_def)
  consider (plain) "s ! i \<noteq> QUOTE" | (esc) "s ! i = QUOTE" "isEscaped s i"
    | (close) "s ! i = QUOTE" "\<not> isEscaped s i" "commaIndex st = -1"
    | (cancel) "s ! i = QUOTE" "\<not> isEscaped s i" "commaIndex st \<noteq> -1" "tc"
    using t by blast
  then show ?thesis
  proof cases
    case plain
    then show ?thesis using lt m o t by (simp add: sim_simps d)
  next
    case esc
    then show ?thesis using lt m o t by (simp add: sim_simps d)
  next
    case close
    then show ?thesis using lt m o by (simp add: sim_simps d)
  next
    case cancel
    then show ?thesis using lt m o by (simp add: sim_simps d)
  qed
qed


lemma sim_normal:
  assumes inv: "Inv s tc i st" and lt: "i < length s"
    and m: "isInsideComment st = NoComment" "\<not> isInsideString st"
  shows "Inv s tc (fst (body s ws tc i st) + 1) (snd (body s ws tc i st))
     \<and> absScan ws tc s (fst (body s ws tc i st) + 1) (snd (body s ws tc i st))
       = absScan ws tc s i st"
proof -
  have d: "drop i s = s ! i # drop (Suc i) s"
    using lt by (simp add: Cons_nth_drop_Suc)
  have o: "offset st \<le> i" using inv by (simp add: Inv_def)
  have t: "commaIndex st = -1 \<or> tc" using inv by (simp add: Inv_def)
  consider (quote) "s ! i = QUOTE" "\<not> isEscaped s i"
    | (line) "s ! i = SLASH" "lookahead (drop (Suc i) s) = Some SLASH"
    | (block) "s ! i = SLASH" "lookahead (drop (Suc i) s) = Some STAR"
    | (other) "s ! i = QUOTE \<longrightarrow> isEscaped s i"
        "s ! i = SLASH \<longrightarrow> lookahead (drop (Suc i) s) \<noteq> Some SLASH
           \<and> lookahead (drop (Suc i) s) \<noteq> Some STAR"
    by blast
  then show ?thesis
  proof cases
    case quote
    then show ?thesis using lt m o t by (simp add: sim_simps d)
  next
    case line
    then have "Suc i < length s" "s ! Suc i = SLASH"
      by (simp_all add: lookahead_drop)
    then show ?thesis using line lt m o t by (simp add: sim_simps d)
  next
    case block
    then have "Suc i < length s" "s ! Suc i = STAR"
      by (simp_all add: lookahead_drop)
    then show ?thesis using block lt m o t by (simp add: sim_simps d)
  next
    case other
    consider (notc) "\<not> tc" "commaIndex st = -1"
      | (confirm) "tc" "commaIndex st \<noteq> -1" "s ! i = RBRACE \<or> s ! i = RBRACKET"
      | (cancel) "tc" "commaIndex st \<noteq> -1" "s ! i \<noteq> RBRACE" "s ! i \<noteq> RBRACKET"
          "s ! i \<noteq> SPACE" "s ! i \<noteq> TAB" "s ! i \<noteq> CR" "s ! i \<noteq> LF"
      | (keep) "tc" "commaIndex st \<noteq> -1" "s ! i = SPACE \<or> s ! i = TAB \<or> s ! i = CR \<or> s ! i = LF"
      | (newcomma) "tc" "commaIndex st = -1" "s ! i = COMMA"
      | (nocomma) "tc" "commaIndex st = -1" "s ! i \<noteq> COMMA"
      using t by blast
    then show ?thesis
    proof cases
      case notc
      then show ?thesis using other lt m o
        by (simp add: sim_simps d cong: conj_cong)
    next
      case confirm
      then show ?thesis using other lt m o
        by (auto simp add: sim_simps d cong: conj_cong)
    next
      case cancel
      then show ?thesis using other lt m o
        by (simp add: sim_simps d cong: conj_cong)
    next
      case keep
      then show ?thesis using other lt m o
        by (auto simp add: sim_simps d cong: conj_cong)
    next
      case newcomma
      then show ?thesis using other lt m o
        by (simp add: sim_simps d cong: conj_cong)
    next
      case nocomma
      then show ?thesis using other lt m o
        by (simp add: sim_simps d cong: conj_cong)
    qed
  qed
qed


lemma sim_line:
  assumes inv: "Inv s tc i st" and lt: "i < length s"
    and m: "isInsideComment st = singleComment"
  shows "Inv s tc (fst (body s ws tc i st) + 1) (snd (body s ws tc i st))
     \<and> absScan ws tc s (fst (body s ws tc i st) + 1) (snd (body s ws tc i st))
       = absScan ws tc s i st"
proof -
  have d: "drop i s = s ! i # drop (Suc i) s"
    using lt by (simp add: Cons_nth_drop_Suc)
  have o: "offset st \<le> i" using inv by (simp add: Inv_def)
  have t: "commaIndex st = -1 \<or> tc" using inv by (simp add: Inv_def)
  have ns: "\<not> isInsideString st" using inv m by (simp add: Inv_def)
  consider (crlf) "s ! i = CR" "lookahead (drop (Suc i) s) = Some LF"
    | (lf) "s ! i = LF"
    | (other) "s ! i \<noteq> LF" "s ! i = CR \<longrightarrow> lookahead (drop (Suc i) s) \<noteq> Some LF"
    by blast
  then show ?thesis
  proof cases
    case crlf
    then have "Suc i < length s" "s ! Suc i = LF"
      by (simp_all add: lookahead_drop)
    then show ?thesis using crlf lt m o t ns by (simp add: sim_simps d)
  next
    case lf
    then show ?thesis using lt m o t ns by (simp add: sim_simps d)
  next
    case other
    then show ?thesis using lt m o t ns by (simp add: sim_simps d cong: conj_cong)
  qed
qed

lemma sim_block:
  assumes inv: "Inv s tc i st" and lt: "i < length s"
    and m: "isInsideComment st = multiComment"
  shows "Inv s tc (fst (body s ws tc i st) + 1) (snd (body s ws tc i st))
     \<and> absScan ws tc s (fst (body s ws tc i st) + 1) (snd (body s ws tc i st))
       = absScan ws tc s i st"
proof -
  have d: "drop i s = s ! i # drop (Suc i) s"
    using lt by (simp add: Cons_nth_drop_Suc)
  have o: "offset st \<le> i" using inv by (simp add: Inv_def)
  have t: "commaIndex st = -1 \<or> tc" using inv by (simp add: Inv_def)
  have ns: "\<not> isInsideString st" using inv m by (simp add: Inv_def)
  consider (exit) "s ! i = STAR" "lookahead (drop (Suc i) s) = Some SLASH"
    | (other) "s ! i = STAR \<longrightarrow> lookahead (drop (Suc i) s) \<noteq> Some SLASH"
    by blast
  then show ?thesis
  proof cases
    case exit
    then have "Suc i < length s" "s ! Suc i = SLASH"
      by (simp_all add: lookahead_drop)
    then show ?thesis using exit lt m o t ns by (simp add: sim_simps d)
  next
    case other
    then show ?thesis using lt m o t ns by (simp add: sim_simps d cong: conj_cong)
  qed
qed

lemma sim_step:
  assumes "Inv s tc i st" and "i < length s"
  shows "Inv s tc (fst (body s ws tc i st) + 1) (snd (body s ws tc i st))
     \<and> absScan ws tc s (fst (body s ws tc i st) + 1) (snd (body s ws tc i st))
       = absScan ws tc s i st"
proof (cases "isInsideComment st")
  case NoComment
  then show ?thesis
    using assms sim_string [of s tc i st ws] sim_normal [of s tc i st ws]
    by (cases "isInsideString st") simp_all
next
  case singleComment
  then show ?thesis using assms by (rule_tac sim_line)
next
  case multiComment
  then show ?thesis using assms by (rule_tac sim_block)
qed

lemma finish_absScan:
  assumes "Inv s tc i st" and "length s \<le> i"
  shows "finish s ws st = absScan ws tc s i st"
proof -
  from assms have i: "i = length s" by (simp add: Inv_def)
  show ?thesis
    by (simp add: finish_def absScan_def pendOf_def i scanner.simps stripAll_def
        sliceFrom_def strip_erase slice_str_def)
qed

theorem loop_absScan:
  "Inv s tc i st \<Longrightarrow> finish s ws (loop s ws tc i st) = absScan ws tc s i st"
proof (induction s ws tc i st rule: loop.induct)
  case (1 s ws tc i st)
  show ?case
  proof (cases "i < length s")
    case True
    have step: "Inv s tc (fst (body s ws tc i st) + 1) (snd (body s ws tc i st))"
      "absScan ws tc s (fst (body s ws tc i st) + 1) (snd (body s ws tc i st))
        = absScan ws tc s i st"
      using sim_step [OF "1.prems" True] by simp_all
    have "finish s ws (loop s ws tc i st)
        = finish s ws (loop s ws tc (fst (body s ws tc i st) + 1) (snd (body s ws tc i st)))"
      using True by (subst loop.simps) simp
    also have "\<dots> = absScan ws tc s (fst (body s ws tc i st) + 1) (snd (body s ws tc i st))"
      using "1.IH" [OF True step(1)] .
    finally show ?thesis using step(2) by simp
  next
    case False
    then have "loop s ws tc i st = st"
      by (subst loop.simps) simp
    then show ?thesis
      using finish_absScan [OF "1.prems"] False by simp
  qed
qed

theorem stripString_scanner:
  "stripString s ws tc = scanner ws tc Normal False False [] s"
proof -
  have "Inv s tc 0 initial"
    by (simp add: Inv_def initial_def)
  then have "stripString s ws tc = absScan ws tc s 0 initial"
    by (simp add: stripString_def loop_absScan)
  also have "\<dots> = scanner ws tc Normal False False [] s"
    by (simp add: absScan_def initial_def modeOf_def pendOf_def slice_str_def
        isEscaped_odd precedingBackslashes_0)
  finally show ?thesis .
qed

section \<open>Length\<close>

lemma length_erase: "length (erase True cs) = length cs"
  by (simp add: erase_def)

lemma length_stripFirst: "length (stripFirst True buf) = length buf"
  by (simp add: stripFirst_def length_erase)

lemma length_plain:
  "length (fst (plain True tc cand pend c)) + length (snd (snd (plain True tc cand pend c)))
     = Suc (length pend)"
  by (simp add: plain_def length_stripFirst)

lemma lookahead_length: "lookahead xs = Some d \<Longrightarrow> Suc (length (tl xs)) = length xs"
  by (cases xs) (simp_all add: lookahead_def)

lemma length_scanner:
  "ws \<Longrightarrow> length (scanner ws tc m p cand pend xs) = length pend + length xs"
proof (induction ws tc m p cand pend xs rule: scanner.induct)
  case (1 ws tc m p cand pend)
  then show ?case by (simp add: scanner.simps)
next
  case (2 ws tc p cand pend c xs)
  then show ?case
    using length_plain [of tc cand pend c]
    by (auto simp add: scanner.simps length_erase dest: lookahead_length)
next
  case (3 ws tc p cand pend c xs)
  then show ?case by (simp add: scanner.simps)
next
  case (4 ws tc p cand pend c xs)
  then show ?case
    by (auto simp add: scanner.simps length_erase dest: lookahead_length)
next
  case (5 ws tc p cand pend c xs)
  then show ?case
    by (auto simp add: scanner.simps length_erase dest: lookahead_length)
qed

text \<open>
  C5. In whitespace-preserving mode the output is as long as the input, for every
  input and with trailing-comma stripping on or off (a stripped comma is replaced
  by one space), so in particular whenever no trailing comma is stripped.
\<close>

theorem length_invariant:
  "length (stripString x True trailingCommas) = length x"
  by (simp add: stripString_scanner length_scanner)

section \<open>Idempotence\<close>

text \<open>While no comma is pending, the text not yet moved to \<open>result\<close> is output as it is.\<close>

lemma scanner_flush_any:
  "scanner ws tc m p False (a @ b) xs = a @ scanner ws tc m p False b xs"
proof (induction xs arbitrary: tc m p a b rule: length_induct)
  case (1 xs)
  show ?case
  proof (cases xs)
    case Nil
    then show ?thesis by (simp add: scanner.simps)
  next
    case (Cons c ys)
    have IH: "\<And>zs tc m p a b. length zs \<le> length ys \<Longrightarrow>
        scanner ws tc m p False (a @ b) zs = a @ scanner ws tc m p False b zs"
      using 1 Cons by simp
    have tl: "length (tl ys) \<le> length ys" by simp
    show ?thesis
      using IH [of ys _ _ _ a] IH [OF tl, of _ _ _ a]
      by (cases m) (simp_all add: Cons scanner.simps plain_def)
  qed
qed

text \<open>The scan with the default options, emitting as it goes.\<close>

definition sc :: "mode \<Rightarrow> bool \<Rightarrow> jsstring \<Rightarrow> jsstring" where
  "sc m p xs = scanner True False m p False [] xs"

lemma scanner_flush1:
  "scanner ws False m p False [x] xs = x # scanner ws False m p False [] xs"
  using scanner_flush_any [of ws False m p "[x]" "[]" xs] by simp

lemma scanner_flush2:
  "scanner ws False m p False [x, y] xs = x # y # scanner ws False m p False [] xs"
  using scanner_flush_any [of ws False m p "[x, y]" "[]" xs] by simp

lemma sc_Nil: "sc m p [] = []"
  by (simp add: sc_def scanner.simps)

lemma sc_Normal:
  "sc Normal p (c # xs) =
     (if c = QUOTE \<and> \<not> p then c # sc InString False xs
      else if c = SLASH \<and> lookahead xs = Some SLASH then
        SPACE # SPACE # sc InLineComment False (tl xs)
      else if c = SLASH \<and> lookahead xs = Some STAR then
        SPACE # SPACE # sc InBlockComment False (tl xs)
      else c # sc Normal (c = BACKSLASH \<and> \<not> p) xs)"
  by (simp add: sc_def scanner.simps scanner_flush1 scanner_flush2 plain_def erase_def blank_def
      isWhitespace_def)

lemma sc_InString:
  "sc InString p (c # xs) =
     (if c = QUOTE \<and> \<not> p then c # sc Normal False xs
      else c # sc InString (c = BACKSLASH \<and> \<not> p) xs)"
  by (simp add: sc_def scanner.simps scanner_flush1 scanner_flush2)

lemma sc_Line:
  "sc InLineComment p (c # xs) =
     (if c = CR \<and> lookahead xs = Some LF then CR # LF # sc Normal False (tl xs)
      else if c = LF then LF # sc Normal False xs
      else blank c # sc InLineComment (c = BACKSLASH \<and> \<not> p) xs)"
  by (simp add: sc_def scanner.simps scanner_flush1 scanner_flush2 erase_def blank_def
      isWhitespace_def)

lemma sc_Block:
  "sc InBlockComment p (c # xs) =
     (if c = STAR \<and> lookahead xs = Some SLASH then SPACE # SPACE # sc Normal False (tl xs)
      else blank c # sc InBlockComment (c = BACKSLASH \<and> \<not> p) xs)"
  by (simp add: sc_def scanner.simps scanner_flush1 scanner_flush2 erase_def blank_def
      isWhitespace_def)


text \<open>
  A second pass over the output of a first pass: where the first pass was inside a
  comment it wrote white space, which the second pass reads outside of any comment.
\<close>

fun second :: "mode \<Rightarrow> mode" where
  "second Normal = Normal"
| "second InString = InString"
| "second InLineComment = Normal"
| "second InBlockComment = Normal"

lemma blank_not_special: "blank c \<noteq> QUOTE" "blank c \<noteq> SLASH" "blank c \<noteq> BACKSLASH"
  by (auto simp add: blank_def isWhitespace_def)

lemma lookahead_Cons: "lookahead (c # xs) = Some c"
  by (simp add: lookahead_def)

lemma lookahead_Nil: "lookahead [] = None"
  by (simp add: lookahead_def)

lemma lookahead_sc_Normal:
  "lookahead (sc Normal p ys) = Some d \<Longrightarrow> d = SLASH \<or> d = STAR \<Longrightarrow> lookahead ys = Some d"
  by (cases ys) (auto simp add: sc_Nil sc_Normal lookahead_Cons lookahead_Nil split: if_splits)

lemma idem_Normal_plain:
  assumes "c = QUOTE \<longrightarrow> p"
    and "c = SLASH \<longrightarrow> lookahead ys \<noteq> Some SLASH \<and> lookahead ys \<noteq> Some STAR"
  shows "sc Normal p (c # sc Normal p' ys) = c # sc Normal (c = BACKSLASH \<and> \<not> p) (sc Normal p' ys)"
proof -
  have "c = SLASH \<longrightarrow> lookahead (sc Normal p' ys) \<noteq> Some SLASH
      \<and> lookahead (sc Normal p' ys) \<noteq> Some STAR"
    using assms(2) lookahead_sc_Normal [of p' ys] by blast
  with assms(1) show ?thesis
    by (simp add: sc_Normal cong: conj_cong)
qed

lemma sc_Normal_blank:
  "sc Normal q (blank c # xs) = blank c # sc Normal False xs"
  by (simp add: sc_Normal blank_not_special)

lemma sc_Normal_space: "sc Normal q (SPACE # xs) = SPACE # sc Normal False xs"
  by (simp add: sc_Normal)

lemma sc_Normal_cr: "sc Normal q (CR # xs) = CR # sc Normal False xs"
  by (simp add: sc_Normal)

lemma sc_Normal_lf: "sc Normal q (LF # xs) = LF # sc Normal False xs"
  by (simp add: sc_Normal)

lemma idem_gen:
  "(m = Normal \<or> m = InString \<longrightarrow> q = p) \<Longrightarrow> sc (second m) q (sc m p xs) = sc m p xs"
proof (induction xs arbitrary: m p q rule: length_induct)
  case (1 xs)
  show ?case
  proof (cases xs)
    case Nil
    then show ?thesis by (simp add: sc_Nil)
  next
    case (Cons c ys)
    have IH: "\<And>zs m p q. length zs \<le> length ys \<Longrightarrow> (m = Normal \<or> m = InString \<longrightarrow> q = p)
        \<Longrightarrow> sc (second m) q (sc m p zs) = sc m p zs"
      using 1 Cons by simp
    have tl: "length (tl ys) \<le> length ys" by simp
    note IH1 = IH [of ys, OF le_refl]
    note IH2 = IH [OF tl]
    show ?thesis
    proof (cases m)
      case Normal
      then have q: "q = p" using 1 by simp
      consider (quote) "c = QUOTE" "\<not> p"
        | (line) "c = SLASH" "lookahead ys = Some SLASH"
        | (block) "c = SLASH" "lookahead ys = Some STAR"
        | (other) "c = QUOTE \<longrightarrow> p"
            "c = SLASH \<longrightarrow> lookahead ys \<noteq> Some SLASH \<and> lookahead ys \<noteq> Some STAR"
        by blast
      then show ?thesis
      proof cases
        case quote
        then show ?thesis
          using IH1 [of InString False False] by (simp add: Cons Normal q sc_Normal)
      next
        case line
        then have "sc Normal p (c # ys) = SPACE # SPACE # sc InLineComment False (tl ys)"
          by (simp add: sc_Normal)
        then show ?thesis
          using IH2 [of InLineComment False False]
          by (simp add: Cons Normal q sc_Normal_space)
      next
        case block
        then have "sc Normal p (c # ys) = SPACE # SPACE # sc InBlockComment False (tl ys)"
          by (simp add: sc_Normal)
        then show ?thesis
          using IH2 [of InBlockComment False False]
          by (simp add: Cons Normal q sc_Normal_space)
      next
        case other
        then have "sc Normal p (c # ys) = c # sc Normal (c = BACKSLASH \<and> \<not> p) ys"
          by (simp add: sc_Normal cong: conj_cong)
        then show ?thesis
          using IH1 [of Normal "c = BACKSLASH \<and> \<not> p" "c = BACKSLASH \<and> \<not> p"] other
          by (simp add: Cons Normal q idem_Normal_plain)
      qed
    next
      case InString
      then have q: "q = p" using 1 by simp
      show ?thesis
      proof (cases "c = QUOTE \<and> \<not> p")
        case True
        then show ?thesis
          using IH1 [of Normal False False] by (simp add: Cons InString q sc_InString)
      next
        case False
        then have "sc InString p (c # ys) = c # sc InString (c = BACKSLASH \<and> \<not> p) ys"
          by (auto simp add: sc_InString)
        then show ?thesis
          using IH1 [of InString "c = BACKSLASH \<and> \<not> p" "c = BACKSLASH \<and> \<not> p"] False
          by (auto simp add: Cons InString q sc_InString)
      qed
    next
      case InLineComment
      consider (crlf) "c = CR" "lookahead ys = Some LF" | (lf) "c = LF"
        | (other) "c \<noteq> LF" "c = CR \<longrightarrow> lookahead ys \<noteq> Some LF"
        by blast
      then show ?thesis
      proof cases
        case crlf
        then have "sc InLineComment p (c # ys) = CR # LF # sc Normal False (tl ys)"
          by (simp add: sc_Line)
        then show ?thesis
          using IH2 [of Normal False False]
          by (simp add: Cons InLineComment sc_Normal_cr sc_Normal_lf)
      next
        case lf
        then have "sc InLineComment p (c # ys) = LF # sc Normal False ys"
          by (simp add: sc_Line)
        then show ?thesis
          using IH1 [of Normal False False]
          by (simp add: Cons InLineComment sc_Normal_lf)
      next
        case other
        then have "sc InLineComment p (c # ys)
            = blank c # sc InLineComment (c = BACKSLASH \<and> \<not> p) ys"
          by (simp add: sc_Line cong: conj_cong)
        then show ?thesis
          using IH1 [of InLineComment False "c = BACKSLASH \<and> \<not> p"]
          by (simp add: Cons InLineComment sc_Normal_blank)
      qed
    next
      case InBlockComment
      show ?thesis
      proof (cases "c = STAR \<and> lookahead ys = Some SLASH")
        case True
        then have "sc InBlockComment p (c # ys) = SPACE # SPACE # sc Normal False (tl ys)"
          by (simp add: sc_Block)
        then show ?thesis
          using IH2 [of Normal False False]
          by (simp add: Cons InBlockComment sc_Normal_space)
      next
        case False
        then have "sc InBlockComment p (c # ys)
            = blank c # sc InBlockComment (c = BACKSLASH \<and> \<not> p) ys"
          by (auto simp add: sc_Block)
        then show ?thesis
          using IH1 [of InBlockComment False "c = BACKSLASH \<and> \<not> p"]
          by (simp add: Cons InBlockComment sc_Normal_blank)
      qed
    qed
  qed
qed

text \<open>
  C4, as amended. With the default options (white space preserved, trailing commas
  kept) a second pass changes nothing.
\<close>

theorem idempotent_default:
  "stripString (stripString x True False) True False = stripString x True False"
  using idem_gen [of Normal False False x]
  by (simp add: stripString_scanner sc_def)

text \<open>
  C4 as stated fails for the other option values. Without white space, removing a
  comment can move a backslash next to a quote, which then no longer opens a
  string: \<open>\/**/"//"\<close> becomes \<open>\"//"\<close> and then \<open>\"\<close>. With trailing commas, a
  form feed inside a comment survives the first pass and, read outside of a comment
  by the second pass, ends a pending comma that the first pass carried across the
  comment: \<open>,/*\f*/,]\<close>.
\<close>

theorem idempotent_counterexample:
  "stripString (stripString [BACKSLASH, SLASH, STAR, STAR, SLASH, QUOTE, SLASH, SLASH, QUOTE]
       False False) False False
     \<noteq> stripString [BACKSLASH, SLASH, STAR, STAR, SLASH, QUOTE, SLASH, SLASH, QUOTE] False False
   \<and> stripString (stripString [BACKSLASH, SLASH, STAR, STAR, SLASH, QUOTE, SLASH, SLASH, QUOTE]
       False True) False True
     \<noteq> stripString [BACKSLASH, SLASH, STAR, STAR, SLASH, QUOTE, SLASH, SLASH, QUOTE] False True
   \<and> stripString (stripString [COMMA, SLASH, STAR, FF, STAR, SLASH, COMMA, RBRACKET]
       True True) True True
     \<noteq> stripString [COMMA, SLASH, STAR, FF, STAR, SLASH, COMMA, RBRACKET] True True"
  by code_simp

section \<open>Scanning a prefix\<close>

lemma charAt_append:
  "i < int (length pre) \<Longrightarrow> charAt (pre @ rest) i = charAt pre i"
  by (auto simp add: charAt_def nth_append)

lemma isEscaped_append:
  "i \<le> length pre \<Longrightarrow> isEscaped (pre @ rest) i = isEscaped pre i"
  by (simp add: isEscaped_odd precedingBackslashes_def)

lemma slice_append:
  "b \<le> length pre \<Longrightarrow> slice_str (pre @ rest) a b = slice_str pre a b"
  by (simp add: slice_str_def)

lemma strip_append:
  "b \<le> length pre \<Longrightarrow> strip ws (pre @ rest) a b = strip ws pre a b"
  by (simp add: strip_erase slice_append)

lemma charAt_next_None: "length s \<le> Suc i \<Longrightarrow> charAt s (int i + 1) = None"
  by (simp add: charAt_def)

lemma body_prefix_inner:
  assumes "Suc i < length pre"
  shows "body (pre @ rest) ws tc i st = body pre ws tc i st"
proof -
  have c: "charAt (pre @ rest) (int i) = charAt pre (int i)"
    "charAt (pre @ rest) (int i + 1) = charAt pre (int i + 1)"
    using assms by (simp_all add: charAt_append)
  have e: "isEscaped (pre @ rest) i = isEscaped pre i"
    using assms by (simp add: isEscaped_append)
  have s: "\<And>a. slice_str (pre @ rest) a i = slice_str pre a i"
    "\<And>a. strip ws (pre @ rest) a i = strip ws pre a i"
    "\<And>a. strip ws (pre @ rest) a (i + 1) = strip ws pre a (i + 1)"
    "\<And>a. strip ws (pre @ rest) a (i + 1 + 1) = strip ws pre a (i + 1 + 1)"
    using assms by (simp_all add: slice_append strip_append)
  show ?thesis
    by (simp only: body_def c e s)
qed


text \<open>
  The one look ahead of the loop reads across the end of a prefix. \<open>boundarySafe\<close>
  says that, with the prefix scanned to the state \<open>f\<close>, its last code unit and the
  first one after it do not form \<open>//\<close> or \<open>/*\<close> outside a comment, \<open>*/\<close> inside a
  block comment, or CR LF inside a line comment. A last slash that has closed a
  block comment is harmless: the loop has passed it, and \<open>offset\<close> is the length of
  the prefix.
\<close>

definition boundarySafe :: "jsstring \<Rightarrow> jsstring \<Rightarrow> scan_state \<Rightarrow> bool" where
  "boundarySafe pre rest f \<longleftrightarrow>
     \<not> (last pre = SLASH \<and> (lookahead rest = Some SLASH \<or> lookahead rest = Some STAR)
          \<and> isInsideComment f = NoComment \<and> \<not> isInsideString f
          \<and> offset f < length pre)
     \<and> \<not> (last pre = STAR \<and> lookahead rest = Some SLASH \<and> isInsideComment f = multiComment)
     \<and> \<not> (last pre = CR \<and> lookahead rest = Some LF \<and> isInsideComment f = singleComment)"

lemma charAt_boundary: "charAt (pre @ rest) (int (length pre)) = lookahead rest"
  by (cases rest) (simp_all add: charAt_def lookahead_def)

lemma body_prefix_last:
  assumes i: "Suc i = length pre"
    and off: "offset st \<le> i"
    and safe: "boundarySafe pre rest (snd (body pre ws tc i st))"
  shows "body (pre @ rest) ws tc i st = body pre ws tc i st"
proof -
  have lt: "i < length pre" using i by simp
  have c: "charAt (pre @ rest) (int i) = Some (pre ! i)" "charAt pre (int i) = Some (pre ! i)"
    using lt by (simp_all add: charAt_nth nth_append)
  have n: "charAt pre (int i + 1) = None"
    using i by (simp add: charAt_next_None)
  have "int i + 1 = int (length pre)" using i by simp
  then have n': "charAt (pre @ rest) (int i + 1) = lookahead rest"
    by (simp only: charAt_boundary)
  have e: "isEscaped (pre @ rest) i = isEscaped pre i"
    using lt by (simp add: isEscaped_append)
  have s: "\<And>a. slice_str (pre @ rest) a i = slice_str pre a i"
    "\<And>a. strip ws (pre @ rest) a i = strip ws pre a i"
    using lt by (simp_all add: slice_append strip_append)
  have l: "last pre = pre ! i"
    using i by (metis diff_Suc_1 last_conv_nth length_0_conv nat.distinct(1))
  consider (opens) "pre ! i = SLASH" "lookahead rest = Some SLASH \<or> lookahead rest = Some STAR"
      "isInsideComment st = NoComment" "\<not> isInsideString st"
    | (crlf) "pre ! i = CR" "lookahead rest = Some LF" "isInsideComment st = singleComment"
      "\<not> isInsideString st"
    | (closes) "pre ! i = STAR" "lookahead rest = Some SLASH" "isInsideComment st = multiComment"
      "\<not> isInsideString st"
    | (instr) "isInsideString st"
    | (none) "\<not> isInsideString st" "\<not> (pre ! i = SLASH \<and> (lookahead rest = Some SLASH \<or> lookahead rest = Some STAR)
              \<and> isInsideComment st = NoComment)"
        "\<not> (pre ! i = CR \<and> lookahead rest = Some LF \<and> isInsideComment st = singleComment)"
        "\<not> (pre ! i = STAR \<and> lookahead rest = Some SLASH
              \<and> isInsideComment st = multiComment)"
    by blast
  then show ?thesis
  proof cases
    case opens
    then have "isInsideComment (snd (body pre ws tc i st)) = NoComment"
      "\<not> isInsideString (snd (body pre ws tc i st))"
      "offset (snd (body pre ws tc i st)) \<le> i"
      using off by (simp_all add: body_def c n Let_def)
    with safe opens l lt show ?thesis by (simp add: boundarySafe_def)
  next
    case crlf
    then have "isInsideComment (snd (body pre ws tc i st)) = singleComment"
      by (simp add: body_def c n Let_def)
    with safe crlf l show ?thesis by (simp add: boundarySafe_def)
  next
    case closes
    then have "isInsideComment (snd (body pre ws tc i st)) = multiComment"
      by (simp add: body_def c n Let_def)
    with safe closes l show ?thesis by (simp add: boundarySafe_def)
  next
    case instr
    then show ?thesis
      by (auto simp add: body_def c n n' e s Let_def)
  next
    case none
    then show ?thesis
      by (auto simp add: body_def c n n' e s Let_def)
  qed
qed


lemma body_bound:
  "i < length s \<Longrightarrow> fst (body s ws tc i st) + 1 \<le> length s"
  by (auto simp add: body_def Let_def charAt_def split: if_splits)

lemma body_last_index:
  "Suc i = length s \<Longrightarrow> fst (body s ws tc i st) = i"
  by (simp add: body_def Let_def charAt_next_None)

lemma loop_done: "length s \<le> i \<Longrightarrow> loop s ws tc i st = st"
  by (subst loop.simps) simp

lemma loop_step:
  "i < length s \<Longrightarrow> loop s ws tc i st
     = loop s ws tc (fst (body s ws tc i st) + 1) (snd (body s ws tc i st))"
  by (subst loop.simps) simp

lemma loop_prefix:
  "Inv pre tc i st \<Longrightarrow> (pre \<noteq> [] \<longrightarrow> boundarySafe pre rest (loop pre ws tc i st)) \<Longrightarrow>
     loop (pre @ rest) ws tc i st = loop (pre @ rest) ws tc (length pre) (loop pre ws tc i st)"
proof (induction pre ws tc i st rule: loop.induct)
  case (1 pre ws tc i st)
  show ?case
  proof (cases "i < length pre")
    case False
    then have "i = length pre" using "1.prems" by (simp add: Inv_def)
    then show ?thesis by (simp add: loop_done)
  next
    case True
    then have ne: "pre \<noteq> []" by auto
    have off: "offset st \<le> i" using "1.prems"(1) by (simp add: Inv_def)
    have inv': "Inv pre tc (fst (body pre ws tc i st) + 1) (snd (body pre ws tc i st))"
      using sim_step [OF "1.prems"(1) True, of ws] by simp
    let ?i' = "fst (body pre ws tc i st)" and ?st' = "snd (body pre ws tc i st)"
    have pre_step: "loop pre ws tc i st = loop pre ws tc (?i' + 1) ?st'"
      using True by (rule loop_step)
    have bnd: "?i' + 1 \<le> length pre"
      using True by (rule body_bound)
    have same: "body (pre @ rest) ws tc i st = body pre ws tc i st"
    proof (cases "Suc i < length pre")
      case True
      then show ?thesis by (rule body_prefix_inner)
    next
      case False
      then have last: "Suc i = length pre" using True by simp
      then have "?i' + 1 = length pre" by (simp add: body_last_index)
      then have "loop pre ws tc i st = ?st'"
        using pre_step by (simp add: loop_done)
      then have "boundarySafe pre rest ?st'"
        using "1.prems"(2) ne by simp
      with last off show ?thesis by (rule body_prefix_last)
    qed
    have "loop (pre @ rest) ws tc i st = loop (pre @ rest) ws tc (?i' + 1) ?st'"
      using True loop_step [of i "pre @ rest" ws tc st] by (simp add: same)
    also have "\<dots> = loop (pre @ rest) ws tc (length pre) (loop pre ws tc (?i' + 1) ?st')"
      using "1.IH" [OF True inv'] "1.prems"(2) by (simp add: pre_step)
    finally show ?thesis by (simp add: pre_step)
  qed
qed

lemma Inv_loop: "Inv s tc i st \<Longrightarrow> Inv s tc (length s) (loop s ws tc i st)"
proof (induction s ws tc i st rule: loop.induct)
  case (1 s ws tc i st)
  show ?case
  proof (cases "i < length s")
    case True
    then show ?thesis
      using "1.IH" [OF True] sim_step [OF "1.prems" True, of ws] by (simp add: loop_step)
  next
    case False
    then show ?thesis using "1.prems" by (simp add: loop_done Inv_def)
  qed
qed

lemma pendOf_append:
  "i \<le> length pre \<Longrightarrow> pendOf ws (pre @ rest) i st = pendOf ws pre i st"
  by (simp add: pendOf_def slice_append strip_append)

lemma Inv_append: "Inv pre tc i st \<Longrightarrow> Inv (pre @ rest) tc i st"
  by (simp add: Inv_def)

lemma Inv_initial: "Inv s tc 0 initial"
  by (simp add: Inv_def initial_def)

text \<open>
  The scan of \<open>pre @ rest\<close> is the scan of \<open>pre\<close> continued over \<open>rest\<close>, when no
  two-character token lies across the boundary.
\<close>

lemma stripString_append:
  assumes "pre \<noteq> [] \<longrightarrow> boundarySafe pre rest (loop pre ws tc 0 initial)"
  shows "stripString (pre @ rest) ws tc =
     result (loop pre ws tc 0 initial) @
     scanner ws tc (modeOf (loop pre ws tc 0 initial)) (isEscaped pre (length pre))
       (commaIndex (loop pre ws tc 0 initial) \<noteq> -1)
       (pendOf ws pre (length pre) (loop pre ws tc 0 initial)) rest"
proof -
  let ?f = "loop pre ws tc 0 initial"
  have inv: "Inv (pre @ rest) tc (length pre) ?f"
    using Inv_loop [OF Inv_initial, of pre tc ws] by (rule Inv_append)
  have "stripString (pre @ rest) ws tc = finish (pre @ rest) ws (loop (pre @ rest) ws tc (length pre) ?f)"
    using loop_prefix [OF Inv_initial, of pre rest ws tc] assms by (simp add: stripString_def)
  also have "\<dots> = absScan ws tc (pre @ rest) (length pre) ?f"
    using inv by (rule loop_absScan)
  finally show ?thesis
    by (simp add: absScan_def pendOf_append isEscaped_append)
qed

lemma stripString_pend:
  "stripString pre ws tc =
     result (loop pre ws tc 0 initial) @ pendOf ws pre (length pre) (loop pre ws tc 0 initial)"
proof -
  have "Inv pre tc (length pre) (loop pre ws tc 0 initial)"
    using Inv_loop [OF Inv_initial] .
  then have "finish pre ws (loop pre ws tc 0 initial)
      = absScan ws tc pre (length pre) (loop pre ws tc 0 initial)"
    by (simp add: finish_absScan)
  then show ?thesis
    by (simp add: stripString_def absScan_def scanner.simps)
qed

section \<open>String literals\<close>

text \<open>The parity of the backslashes at the end of \<open>xs\<close>, starting from parity \<open>p\<close>.\<close>

definition parityAfter :: "bool \<Rightarrow> jsstring \<Rightarrow> bool" where
  "parityAfter p xs = foldl (\<lambda>q c. c = BACKSLASH \<and> \<not> q) p xs"

lemma parityAfter_isEscaped:
  "i \<le> length s \<Longrightarrow> parityAfter False (take i s) = isEscaped s i"
proof (induction i)
  case 0
  then show ?case by (simp add: parityAfter_def isEscaped_odd precedingBackslashes_0)
next
  case (Suc i)
  then show ?case
    by (simp add: parityAfter_def take_Suc_conv_app_nth isEscaped_Suc)
qed

lemma scanner_in_string:
  "(\<forall>i<length payload. payload ! i = QUOTE \<longrightarrow> parityAfter p (take i payload)) \<Longrightarrow>
     scanner ws tc InString p cand pend (payload @ rest)
       = scanner ws tc InString (parityAfter p payload) cand (pend @ payload) rest"
proof (induction payload arbitrary: p pend)
  case Nil
  then show ?case by (simp add: parityAfter_def)
next
  case (Cons c cs)
  have c: "c = QUOTE \<longrightarrow> p"
    using Cons.prems by (auto simp add: parityAfter_def)
  have "\<forall>i<length cs. cs ! i = QUOTE \<longrightarrow> parityAfter (c = BACKSLASH \<and> \<not> p) (take i cs)"
  proof (intro allI impI)
    fix i assume "i < length cs" "cs ! i = QUOTE"
    then show "parityAfter (c = BACKSLASH \<and> \<not> p) (take i cs)"
      using Cons.prems [rule_format, of "Suc i"] by (simp add: parityAfter_def)
  qed
  from Cons.IH [OF this] c show ?case
    by (auto simp add: scanner.simps parityAfter_def)
qed

text \<open>
  The payload of a string literal, between its two quotes: every quote in it is
  escaped, and the closing quote after it is not.
\<close>

definition properlyEscaped :: "jsstring \<Rightarrow> bool" where
  "properlyEscaped payload \<longleftrightarrow>
     (\<forall>i<length payload. payload ! i = QUOTE \<longrightarrow> isEscaped payload i)
     \<and> \<not> isEscaped payload (length payload)"

text \<open>The variables as the loop leaves them at the end of \<open>s\<close>.\<close>

definition scanEnd :: "jsstring \<Rightarrow> bool \<Rightarrow> bool \<Rightarrow> scan_state" where
  "scanEnd s ws tc = loop s ws tc 0 initial"

lemma lookahead_quote_safe: "boundarySafe pre (QUOTE # xs) f"
  by (simp add: boundarySafe_def lookahead_def)

text \<open>
  C6. Let a string literal \<open>"payload"\<close> start where the scan of the text before it is
  outside of any string and comment, its opening quote not escaped, its payload
  properly escaped. Then the literal is in the output unchanged, whatever comment
  markers and commas the payload holds, and the text after it is scanned as if it
  stood alone: no comment starts in the literal and no pending comma survives it.
\<close>

theorem string_safety:
  assumes "\<not> isInsideString (scanEnd pre whitespace trailingCommas)"
    and "isInsideComment (scanEnd pre whitespace trailingCommas) = NoComment"
    and "\<not> isEscaped pre (length pre)"
    and "properlyEscaped payload"
  shows "stripString (pre @ QUOTE # payload @ QUOTE # post) whitespace trailingCommas
     = stripString pre whitespace trailingCommas @ QUOTE # payload @ QUOTE
         # stripString post whitespace trailingCommas"
proof -
  let ?f = "loop pre whitespace trailingCommas 0 initial"
  let ?P = "pendOf whitespace pre (length pre) ?f"
  have m: "modeOf ?f = Normal"
    using assms(1,2) by (simp add: modeOf_def scanEnd_def)
  have q: "\<forall>i<length payload. payload ! i = QUOTE \<longrightarrow> parityAfter False (take i payload)"
    using assms(4) by (simp add: properlyEscaped_def parityAfter_isEscaped)
  have e: "parityAfter False payload = False"
    using assms(4) parityAfter_isEscaped [of "length payload" payload]
    by (simp add: properlyEscaped_def)
  have "stripString (pre @ QUOTE # payload @ QUOTE # post) whitespace trailingCommas
      = result ?f @ scanner whitespace trailingCommas Normal False (commaIndex ?f \<noteq> -1) ?P
          (QUOTE # payload @ QUOTE # post)"
    using stripString_append [of pre "QUOTE # payload @ QUOTE # post" whitespace trailingCommas]
      m assms(3) by (simp add: lookahead_quote_safe)
  also have "scanner whitespace trailingCommas Normal False (commaIndex ?f \<noteq> -1) ?P
          (QUOTE # payload @ QUOTE # post)
      = scanner whitespace trailingCommas InString False (commaIndex ?f \<noteq> -1) (?P @ [QUOTE])
          (payload @ QUOTE # post)"
    by (simp add: scanner.simps)
  also have "\<dots> = scanner whitespace trailingCommas InString False (commaIndex ?f \<noteq> -1)
          (?P @ QUOTE # payload) (QUOTE # post)"
    using scanner_in_string [OF q] e by simp
  also have "\<dots> = scanner whitespace trailingCommas Normal False False
          ((?P @ QUOTE # payload @ [QUOTE]) @ []) post"
    by (simp add: scanner.simps)
  also have "\<dots> = (?P @ QUOTE # payload @ [QUOTE])
      @ scanner whitespace trailingCommas Normal False False [] post"
    by (rule scanner_flush_any)
  finally show ?thesis
    by (simp add: stripString_pend [of pre] stripString_scanner [of post])
qed


theorem string_safety_witness:
  "\<not> isInsideString (scanEnd (js ''[1, '') True True)
   \<and> isInsideComment (scanEnd (js ''[1, '') True True) = NoComment
   \<and> \<not> isEscaped (js ''[1, '') (length (js ''[1, ''))
   \<and> properlyEscaped (js ''//x/*y*/,'')
   \<and> stripString (js ''[1, '' @ QUOTE # js ''//x/*y*/,'' @ QUOTE # js '',]'') True True
       = js ''[1, '' @ QUOTE # js ''//x/*y*/,'' @ QUOTE # js '' ]''"
proof -
  have h1: "\<not> isInsideString (scanEnd (js ''[1, '') True True)" by code_simp
  have h2: "isInsideComment (scanEnd (js ''[1, '') True True) = NoComment" by code_simp
  have h3: "\<not> isEscaped (js ''[1, '') (length (js ''[1, ''))" by code_simp
  have h4: "properlyEscaped (js ''//x/*y*/,'')" by code_simp
  have p: "stripString (js ''[1, '') True True = js ''[1, ''" by code_simp
  have q: "stripString (js '',]'') True True = js '' ]''" by code_simp
  show ?thesis
    using h1 h2 h3 h4 string_safety [OF h1 h2 h3 h4, of "js '',]''"]
    by (simp add: p q)
qed

section \<open>Comments\<close>

text \<open>Whether \<open>*/\<close> occurs in a text.\<close>

fun hasBlockEnd :: "jsstring \<Rightarrow> bool" where
  "hasBlockEnd (c # d # xs) = (c = STAR \<and> d = SLASH \<or> hasBlockEnd (d # xs))"
| "hasBlockEnd xs = False"

lemma lookahead_append_Cons: "lookahead (xs @ d # ys) = (if xs = [] then Some d else lookahead xs)"
  by (cases xs) (simp_all add: lookahead_def)

lemma hasBlockEnd_Cons:
  "hasBlockEnd (c # xs) = (c = STAR \<and> lookahead xs = Some SLASH \<or> hasBlockEnd xs)"
  by (cases xs) (auto simp add: lookahead_def)

lemma scanner_in_block:
  "\<not> hasBlockEnd (inner @ [STAR]) \<Longrightarrow>
     scanner ws tc InBlockComment p cand pend (inner @ STAR # SLASH # rest)
       = scanner ws tc Normal False cand (pend @ erase ws (inner @ [STAR, SLASH])) rest"
proof (induction inner arbitrary: p pend)
  case Nil
  then show ?case by (simp add: scanner.simps lookahead_def)
next
  case (Cons c cs)
  from Cons.prems have n: "\<not> (c = STAR \<and> lookahead (cs @ [STAR]) = Some SLASH)"
    and r: "\<not> hasBlockEnd (cs @ [STAR])"
    by (simp_all add: hasBlockEnd_Cons)
  have "lookahead (cs @ STAR # SLASH # rest) = lookahead (cs @ [STAR])"
    by (simp add: lookahead_append_Cons)
  with n have "\<not> (c = STAR \<and> lookahead (cs @ STAR # SLASH # rest) = Some SLASH)"
    by simp
  then show ?case
    using Cons.IH [OF r, of "c = BACKSLASH \<and> \<not> p" "pend @ erase ws [c]"]
    by (auto simp add: scanner.simps erase_def)
qed

lemma scanner_block_open:
  "\<not> hasBlockEnd inner \<Longrightarrow>
     scanner ws tc InBlockComment p cand pend inner = pend @ erase ws inner"
proof (induction inner arbitrary: p pend)
  case Nil
  then show ?case by (simp add: scanner.simps erase_Nil)
next
  case (Cons c cs)
  from Cons.prems have n: "\<not> (c = STAR \<and> lookahead cs = Some SLASH)"
    and r: "\<not> hasBlockEnd cs"
    by (simp_all add: hasBlockEnd_Cons)
  have "erase ws (c # cs) = erase ws [c] @ erase ws cs"
    by (simp add: erase_def)
  with n show ?case
    using Cons.IH [OF r] by (auto simp add: scanner.simps)
qed

lemma scanner_in_line:
  "LF \<notin> set inner \<Longrightarrow>
     scanner ws tc InLineComment p cand pend (inner @ LF # rest)
       = scanner ws tc Normal False cand (pend @ erase ws inner @ [LF]) rest"
proof (induction inner arbitrary: p pend)
  case Nil
  then show ?case by (simp add: scanner.simps erase_Nil)
next
  case (Cons c cs)
  have e: "erase ws (c # cs) = erase ws [c] @ erase ws cs"
    by (simp add: erase_def)
  show ?case
  proof (cases "c = CR \<and> lookahead (cs @ LF # rest) = Some LF")
    case True
    then have "cs = []"
      using Cons.prems by (cases cs) (simp_all add: lookahead_def)
    with True show ?thesis
      by (simp add: scanner.simps erase_Nil)
  next
    case False
    then show ?thesis
      using Cons.IH [of "c = BACKSLASH \<and> \<not> p" "pend @ erase ws [c]"] Cons.prems
      by (auto simp add: scanner.simps e)
  qed
qed

lemma scanner_line_open:
  "LF \<notin> set inner \<Longrightarrow>
     scanner ws tc InLineComment p cand pend inner = pend @ erase ws inner"
proof (induction inner arbitrary: p pend)
  case Nil
  then show ?case by (simp add: scanner.simps erase_Nil)
next
  case (Cons c cs)
  have e: "erase ws (c # cs) = erase ws [c] @ erase ws cs"
    by (simp add: erase_def)
  have "lookahead cs \<noteq> Some LF"
    using Cons.prems by (cases cs) (simp_all add: lookahead_def)
  then show ?case
    using Cons.IH [of "c = BACKSLASH \<and> \<not> p" "pend @ erase ws [c]"] Cons.prems
    by (simp add: scanner.simps e)
qed


text \<open>
  While a comma is pending, the scan of the rest either appends to the pending text
  and emits it as it is, or appends to it and emits it with its first code unit
  stripped; what it appends and what follows do not depend on the pending text.
\<close>

definition pendingForm :: "bool \<Rightarrow> (jsstring \<Rightarrow> jsstring) \<Rightarrow> bool" where
  "pendingForm ws f \<longleftrightarrow>
     (\<exists>W Z. (\<forall>pend. f pend = (pend @ W) @ Z) \<or> (\<forall>pend. f pend = stripFirst ws (pend @ W) @ Z))"

lemma pf_shift: "pendingForm ws f \<Longrightarrow> pendingForm ws (\<lambda>pend. f (pend @ stuff))"
proof -
  assume "pendingForm ws f"
  then obtain W Z where
    "(\<forall>pend. f pend = (pend @ W) @ Z) \<or> (\<forall>pend. f pend = stripFirst ws (pend @ W) @ Z)"
    by (auto simp add: pendingForm_def)
  then have "(\<forall>pend. f (pend @ stuff) = (pend @ stuff @ W) @ Z)
      \<or> (\<forall>pend. f (pend @ stuff) = stripFirst ws (pend @ stuff @ W) @ Z)"
    by auto
  then show ?thesis
    unfolding pendingForm_def by blast
qed

lemma pf_confirm: "pendingForm ws (\<lambda>pend. stripFirst ws pend @ Z)"
proof -
  have "\<forall>pend. stripFirst ws pend @ Z = stripFirst ws (pend @ []) @ Z" by simp
  then show ?thesis unfolding pendingForm_def by blast
qed

lemma pf_not_pending: "pendingForm ws (\<lambda>pend. scanner ws tc m p False (pend @ stuff) xs)"
proof -
  have "\<And>pend. scanner ws tc m p False ((pend @ stuff) @ []) xs
      = (pend @ stuff) @ scanner ws tc m p False [] xs"
    by (rule scanner_flush_any)
  then have "\<forall>pend. scanner ws tc m p False (pend @ stuff) xs
      = (pend @ stuff) @ scanner ws tc m p False [] xs"
    by (simp only: append_Nil2 simp_thms)
  then show ?thesis unfolding pendingForm_def by blast
qed

lemma scanner_pending:
  "pendingForm ws (\<lambda>pend. scanner ws tc m p True pend xs)"
proof (induction xs arbitrary: m p rule: length_induct)
  case (1 xs)
  show ?case
  proof (cases xs)
    case Nil
    have "\<forall>pend. scanner ws tc m p True pend [] = (pend @ []) @ []"
      by (simp add: scanner.simps)
    then show ?thesis unfolding Nil pendingForm_def by blast
  next
    case (Cons c ys)
    have IH1: "\<And>m p stuff. pendingForm ws (\<lambda>pend. scanner ws tc m p True (pend @ stuff) ys)"
      using 1 Cons pf_shift [of ws "\<lambda>pend. scanner ws tc _ _ True pend ys"] by simp
    have IH2: "\<And>m p stuff. pendingForm ws (\<lambda>pend. scanner ws tc m p True (pend @ stuff) (tl ys))"
      using 1 Cons pf_shift [of ws "\<lambda>pend. scanner ws tc _ _ True pend (tl ys)"]
      by (simp add: less_Suc_eq_le)
    show ?thesis
    proof (cases m)
      case Normal
      consider (quote) "c = QUOTE" "\<not> p"
        | (line) "c = SLASH" "lookahead ys = Some SLASH"
        | (block) "c = SLASH" "lookahead ys = Some STAR"
        | (other) "c = QUOTE \<longrightarrow> p"
            "c = SLASH \<longrightarrow> lookahead ys \<noteq> Some SLASH \<and> lookahead ys \<noteq> Some STAR"
        by blast
      then show ?thesis
      proof cases
        case quote
        then show ?thesis
          using IH1 [of InString False "[c]"] by (simp add: Cons Normal scanner.simps)
      next
        case line
        then show ?thesis
          using IH2 [of InLineComment False "erase ws [SLASH, SLASH]"]
          by (simp add: Cons Normal scanner.simps)
      next
        case block
        then show ?thesis
          using IH2 [of InBlockComment False "erase ws [SLASH, STAR]"]
          by (simp add: Cons Normal scanner.simps)
      next
        case other
        then have e: "\<And>pend. scanner ws tc Normal p True pend (c # ys)
            = fst (plain ws tc True pend c)
              @ scanner ws tc Normal (c = BACKSLASH \<and> \<not> p)
                  (fst (snd (plain ws tc True pend c))) (snd (snd (plain ws tc True pend c))) ys"
          by (simp add: scanner.simps cong: conj_cong)
        have "pendingForm ws (\<lambda>pend. fst (plain ws tc True pend c)
              @ scanner ws tc Normal (c = BACKSLASH \<and> \<not> p)
                  (fst (snd (plain ws tc True pend c))) (snd (snd (plain ws tc True pend c))) ys)"
        proof -
          consider (confirm) "tc" "c = RBRACE \<or> c = RBRACKET"
            | (cancel) "tc" "c \<noteq> RBRACE" "c \<noteq> RBRACKET" "\<not> jsonSpace c"
            | (keep) "tc" "c \<noteq> RBRACE" "c \<noteq> RBRACKET" "jsonSpace c"
            | (notc) "\<not> tc"
            by blast
          then show ?thesis
          proof cases
            case confirm
            then show ?thesis
              using pf_confirm [of ws "scanner ws tc Normal (c = BACKSLASH \<and> \<not> p) False [c] ys"]
              by (simp add: plain_def)
          next
            case cancel
            then show ?thesis
              using pf_not_pending [of ws tc Normal "c = BACKSLASH \<and> \<not> p" "[c]" ys]
              by (simp add: plain_def)
          next
            case keep
            then show ?thesis
              using IH1 [of Normal "c = BACKSLASH \<and> \<not> p" "[c]"]
              by (simp add: plain_def)
          next
            case notc
            then show ?thesis
              using IH1 [of Normal "c = BACKSLASH \<and> \<not> p" "[c]"]
              by (simp add: plain_def)
          qed
        qed
        then show ?thesis
          by (simp only: Cons Normal e)
      qed
    next
      case InString
      show ?thesis
      proof (cases "c = QUOTE \<and> \<not> p")
        case True
        then show ?thesis
          using pf_not_pending [of ws tc Normal False "[c]" ys]
          by (simp add: Cons InString scanner.simps)
      next
        case False
        then have "\<And>pend. scanner ws tc InString p True pend (c # ys)
            = scanner ws tc InString (c = BACKSLASH \<and> \<not> p) True (pend @ [c]) ys"
          by (auto simp add: scanner.simps)
        then show ?thesis
          using IH1 [of InString "c = BACKSLASH \<and> \<not> p" "[c]"] by (simp add: Cons InString)
      qed
    next
      case InLineComment
      consider (crlf) "c = CR" "lookahead ys = Some LF" | (lf) "c = LF"
        | (other) "c \<noteq> LF" "c = CR \<longrightarrow> lookahead ys \<noteq> Some LF"
        by blast
      then show ?thesis
      proof cases
        case crlf
        then show ?thesis
          using IH2 [of Normal False "erase ws [CR] @ [LF]"]
          by (simp add: Cons InLineComment scanner.simps)
      next
        case lf
        then show ?thesis
          using IH1 [of Normal False "[LF]"] by (simp add: Cons InLineComment scanner.simps)
      next
        case other
        then have "\<And>pend. scanner ws tc InLineComment p True pend (c # ys)
            = scanner ws tc InLineComment (c = BACKSLASH \<and> \<not> p) True (pend @ erase ws [c]) ys"
          by (simp add: scanner.simps cong: conj_cong)
        then show ?thesis
          using IH1 [of InLineComment "c = BACKSLASH \<and> \<not> p" "erase ws [c]"]
          by (simp add: Cons InLineComment)
      qed
    next
      case InBlockComment
      show ?thesis
      proof (cases "c = STAR \<and> lookahead ys = Some SLASH")
        case True
        then show ?thesis
          using IH2 [of Normal False "erase ws [STAR, SLASH]"]
          by (simp add: Cons InBlockComment scanner.simps)
      next
        case False
        then have "\<And>pend. scanner ws tc InBlockComment p True pend (c # ys)
            = scanner ws tc InBlockComment (c = BACKSLASH \<and> \<not> p) True (pend @ erase ws [c]) ys"
          by (auto simp add: scanner.simps)
        then show ?thesis
          using IH1 [of InBlockComment "c = BACKSLASH \<and> \<not> p" "erase ws [c]"]
          by (simp add: Cons InBlockComment)
      qed
    qed
  qed
qed


lemma blank_blank: "blank (blank c) = blank c"
  by (simp add: blank_def isWhitespace_def)

lemma stripFirst_blanked:
  "cmt \<noteq> [] \<Longrightarrow> stripFirst True (A @ map blank cmt @ W) = stripFirst True A @ map blank cmt @ W"
  by (cases A; cases cmt) (simp_all add: stripFirst_def erase_def blank_blank)

lemma scanner_keeps_blanked:
  assumes "cmt \<noteq> []"
  shows "\<exists>A' Y. length A' = length A
     \<and> scanner True tc m p cand (A @ map blank cmt @ V) xs = A' @ map blank cmt @ Y"
proof (cases cand)
  case False
  have "scanner True tc m p False ((A @ map blank cmt @ V) @ []) xs
      = (A @ map blank cmt @ V) @ scanner True tc m p False [] xs"
    by (rule scanner_flush_any)
  then have "scanner True tc m p cand (A @ map blank cmt @ V) xs
      = A @ map blank cmt @ (V @ scanner True tc m p False [] xs)"
    using False by simp
  then show ?thesis by blast
next
  case True
  obtain W Z where
    "(\<forall>pend. scanner True tc m p True pend xs = (pend @ W) @ Z)
     \<or> (\<forall>pend. scanner True tc m p True pend xs = stripFirst True (pend @ W) @ Z)"
    using scanner_pending [of True tc m p xs] by (auto simp add: pendingForm_def)
  then show ?thesis
  proof
    assume "\<forall>pend. scanner True tc m p True pend xs = (pend @ W) @ Z"
    then have "scanner True tc m p cand (A @ map blank cmt @ V) xs
        = A @ map blank cmt @ (V @ W @ Z)"
      using True by simp
    then show ?thesis by blast
  next
    assume "\<forall>pend. scanner True tc m p True pend xs = stripFirst True (pend @ W) @ Z"
    then have "scanner True tc m p cand (A @ map blank cmt @ V) xs
        = stripFirst True (A @ map blank cmt @ (V @ W)) @ Z"
      using True by simp
    also have "\<dots> = stripFirst True A @ map blank cmt @ ((V @ W) @ Z)"
      using assms by (simp add: stripFirst_blanked)
    finally show ?thesis
      using length_stripFirst [of A] by blast
  qed
qed

text \<open>
  \<open>cmt\<close> is a whole comment when \<open>post\<close> follows it: a line comment up to a line
  feed or the end of the input, a block comment up to its first \<open>*/\<close>, or a block
  comment that the end of the input leaves open.
\<close>

definition wholeComment :: "jsstring \<Rightarrow> jsstring \<Rightarrow> bool" where
  "wholeComment cmt post \<longleftrightarrow>
     (\<exists>inner. cmt = SLASH # SLASH # inner \<and> LF \<notin> set inner
        \<and> (post = [] \<or> lookahead post = Some LF))
     \<or> (\<exists>inner. cmt = SLASH # STAR # inner @ [STAR, SLASH] \<and> \<not> hasBlockEnd (inner @ [STAR]))
     \<or> (\<exists>inner. cmt = SLASH # STAR # inner \<and> \<not> hasBlockEnd inner \<and> post = [])"

lemma erase_True: "erase True cs = map blank cs"
  by (simp add: erase_def)

lemma scanner_over_comment:
  assumes "wholeComment cmt post"
  shows "\<exists>A' Y. length A' = length A
     \<and> scanner True tc Normal p cand A (cmt @ post) = A' @ map blank cmt @ Y"
proof -
  have ne: "cmt \<noteq> []" using assms by (auto simp add: wholeComment_def)
  consider (line_end) inner where "cmt = SLASH # SLASH # inner" "LF \<notin> set inner" "post = []"
    | (line_lf) inner rest where "cmt = SLASH # SLASH # inner" "LF \<notin> set inner" "post = LF # rest"
    | (block) inner where "cmt = SLASH # STAR # inner @ [STAR, SLASH]"
        "\<not> hasBlockEnd (inner @ [STAR])"
    | (block_open) inner where "cmt = SLASH # STAR # inner" "\<not> hasBlockEnd inner" "post = []"
    using assms by (cases post) (auto simp add: wholeComment_def lookahead_def)
  then show ?thesis
  proof cases
    case line_end
    then have "scanner True tc Normal p cand A (cmt @ post)
        = A @ map blank cmt @ []"
      by (simp add: scanner.simps lookahead_def scanner_line_open erase_True)
    then show ?thesis by blast
  next
    case line_lf
    then have "scanner True tc Normal p cand A (cmt @ post)
        = scanner True tc Normal False cand (A @ map blank cmt @ [LF]) rest"
      by (simp add: scanner.simps lookahead_def scanner_in_line erase_True)
    then show ?thesis
      using scanner_keeps_blanked [OF ne, of A tc Normal False cand "[LF]" rest] by simp
  next
    case block
    then have "scanner True tc Normal p cand A (cmt @ post)
        = scanner True tc Normal False cand (A @ map blank cmt @ []) post"
      by (simp add: scanner.simps lookahead_def scanner_in_block erase_True)
    then show ?thesis
      using scanner_keeps_blanked [OF ne, of A tc Normal False cand "[]" post] by simp
  next
    case block_open
    then have "scanner True tc Normal p cand A (cmt @ post)
        = A @ map blank cmt @ []"
      by (simp add: scanner.simps lookahead_def scanner_block_open erase_True)
    then show ?thesis by blast
  qed
qed

lemma boundarySafe_comment:
  assumes "isInsideComment f = NoComment" and "last pre \<noteq> SLASH \<or> offset f = length pre"
  shows "boundarySafe pre (SLASH # xs) f"
  using assms by (auto simp add: boundarySafe_def lookahead_def)

text \<open>
  C2, as amended. With white space preserved, the output is as long as the input,
  and at every position of a comment it holds a space where the comment has a code
  unit that is not white space, and the comment's own code unit where that is white
  space: a line feed, but also a tab, a carriage return or a form feed. The comment
  starts where the scan of the text before it is outside of any string and comment,
  and that text does not end in a slash that would start the comment earlier: it
  ends in no slash, or in the slash that closes a block comment (\<open>offset\<close> is then
  the end of that text).
\<close>

theorem comment_blanked:
  assumes "\<not> isInsideString (scanEnd pre True trailingCommas)"
    and "isInsideComment (scanEnd pre True trailingCommas) = NoComment"
    and "pre = [] \<or> last pre \<noteq> SLASH
      \<or> offset (scanEnd pre True trailingCommas) = length pre"
    and "wholeComment cmt post"
  shows "length (stripString (pre @ cmt @ post) True trailingCommas) = length (pre @ cmt @ post)
     \<and> (\<forall>j<length cmt. stripString (pre @ cmt @ post) True trailingCommas ! (length pre + j)
           = (if isWhitespace (cmt ! j) then cmt ! j else SPACE))"
proof -
  let ?f = "loop pre True trailingCommas 0 initial"
  let ?P = "pendOf True pre (length pre) ?f"
  let ?out = "stripString (pre @ cmt @ post) True trailingCommas"
  obtain xs where cmt: "cmt = SLASH # xs"
    using assms(4) by (auto simp add: wholeComment_def)
  have m: "modeOf ?f = Normal"
    using assms(1,2) by (simp add: modeOf_def scanEnd_def)
  have safe: "pre \<noteq> [] \<longrightarrow> boundarySafe pre (cmt @ post) ?f"
    using assms(2,3) by (auto simp add: cmt boundarySafe_comment scanEnd_def)
  have out: "?out = result ?f @ scanner True trailingCommas Normal (isEscaped pre (length pre))
      (commaIndex ?f \<noteq> -1) ?P (cmt @ post)"
    using stripString_append [OF safe] m by simp
  obtain A' Y where A': "length A' = length ?P"
    and sc: "scanner True trailingCommas Normal (isEscaped pre (length pre))
      (commaIndex ?f \<noteq> -1) ?P (cmt @ post) = A' @ map blank cmt @ Y"
    using scanner_over_comment [OF assms(4)] by blast
  have "length (result ?f @ ?P) = length pre"
    using stripString_pend [of pre True trailingCommas]
      length_scanner [of True trailingCommas Normal False False "[]" pre]
    by (simp add: stripString_scanner)
  then have len: "length (result ?f @ A') = length pre"
    using A' by simp
  have eq: "?out = (result ?f @ A') @ map blank cmt @ Y"
    using out sc by simp
  have "\<forall>j<length cmt. ?out ! (length pre + j) = blank (cmt ! j)"
  proof (intro allI impI)
    fix j assume j: "j < length cmt"
    have "?out ! (length pre + j) = (map blank cmt @ Y) ! j"
      using len by (simp only: eq nth_append_length_plus [of "result ?f @ A'", unfolded len])
    also have "\<dots> = blank (cmt ! j)"
      using j by (simp add: nth_append)
    finally show "?out ! (length pre + j) = blank (cmt ! j)" .
  qed
  moreover have "length ?out = length (pre @ cmt @ post)"
    using length_scanner [of True trailingCommas Normal False False "[]" "pre @ cmt @ post"]
    by (simp add: stripString_scanner)
  ultimately show ?thesis
    by (simp add: blank_def)
qed

theorem comment_blanked_witness:
  "\<not> isInsideString (scanEnd (js ''{'' @ QUOTE # js ''a'' @ QUOTE # js '':1 '') True False)
   \<and> isInsideComment (scanEnd (js ''{'' @ QUOTE # js ''a'' @ QUOTE # js '':1 '') True False)
       = NoComment
   \<and> last (js ''{'' @ QUOTE # js ''a'' @ QUOTE # js '':1 '') \<noteq> SLASH
   \<and> wholeComment (js ''// comment'') (LF # js ''}'')
   \<and> stripString ((js ''{'' @ QUOTE # js ''a'' @ QUOTE # js '':1 '') @ js ''// comment''
         @ LF # js ''}'') True False ! (7 + 3) = SPACE
   \<and> stripString ((js ''{'' @ QUOTE # js ''a'' @ QUOTE # js '':1 '') @ js ''// comment''
         @ LF # js ''}'') True False
       = js ''{'' @ QUOTE # js ''a'' @ QUOTE # js '':1'' @ replicate 11 SPACE @ LF # js ''}''"
proof -
  let ?pre = "js ''{'' @ QUOTE # js ''a'' @ QUOTE # js '':1 ''"
  have h1: "\<not> isInsideString (scanEnd ?pre True False)" by code_simp
  have h2: "isInsideComment (scanEnd ?pre True False) = NoComment" by code_simp
  have h3': "last ?pre \<noteq> SLASH" by code_simp
  have h3: "?pre = [] \<or> last ?pre \<noteq> SLASH \<or> offset (scanEnd ?pre True False) = length ?pre"
    by (rule disjI2, rule disjI1, rule h3')
  have h4: "wholeComment (js ''// comment'') (LF # js ''}'')"
    by (simp add: wholeComment_def js_def lookahead_def)
  have l: "length ?pre = 7" "(3::nat) < length (js ''// comment'')"
    "isWhitespace (js ''// comment'' ! 3) = False"
    by (simp_all add: js_def isWhitespace_def)
  have c: "stripString (?pre @ js ''// comment'' @ LF # js ''}'') True False
       = js ''{'' @ QUOTE # js ''a'' @ QUOTE # js '':1'' @ replicate 11 SPACE @ LF # js ''}''"
    by code_simp
  have "stripString (?pre @ js ''// comment'' @ LF # js ''}'') True False ! (length ?pre + 3)
      = (if isWhitespace (js ''// comment'' ! 3) then js ''// comment'' ! 3 else SPACE)"
    using comment_blanked [OF h1 h2 h3 h4, THEN conjunct2, rule_format, of 3] l(2) by blast
  then have "stripString (?pre @ js ''// comment'' @ LF # js ''}'') True False ! (7 + 3) = SPACE"
    by (simp only: l if_False)
  then show ?thesis
    using h1 h2 h3' h4 c by (simp del: replicate.simps)
qed

text \<open>
  C2 as stated fails on a tab inside a comment: it is neither a line feed nor
  replaced by a space.
\<close>

theorem comment_blanked_counterexample:
  "stripString [SLASH, STAR, TAB, STAR, SLASH] True False = [SPACE, SPACE, TAB, SPACE, SPACE]
   \<and> stripString [SLASH, STAR, TAB, STAR, SLASH] True False ! 2 \<noteq> SPACE
   \<and> [SLASH, STAR, TAB, STAR, SLASH] ! 2 \<noteq> LF"
  by code_simp

section \<open>More loop invariants\<close>

text \<open>
  Three more facts that every iteration keeps. Inside a comment, \<open>offset\<close> is where
  the comment starts. With white space preserved, \<open>result\<close> and \<open>buffer\<close> together are
  as long as the input before \<open>offset\<close>. While a comma is pending, \<open>commaIndex\<close> is its
  position, the text not yet moved to \<open>result\<close> starts with it, and \<open>result\<close> ends
  just before it.
\<close>

definition startsWithComma :: "jsstring \<Rightarrow> bool" where
  "startsWithComma xs \<longleftrightarrow> (\<exists>r. xs = COMMA # r)"

lemma startsWithComma_Nil: "startsWithComma [] = False"
  by (simp add: startsWithComma_def)

lemma startsWithComma_Cons: "startsWithComma (c # xs) = (c = COMMA)"
  by (auto simp add: startsWithComma_def)

lemma startsWithComma_append:
  "startsWithComma (xs @ ys) = (if xs = [] then startsWithComma ys else startsWithComma xs)"
  by (cases xs) (simp_all add: startsWithComma_Cons)

definition Inv2 :: "jsstring \<Rightarrow> bool \<Rightarrow> nat \<Rightarrow> scan_state \<Rightarrow> bool" where
  "Inv2 s ws i st \<longleftrightarrow>
     (isInsideComment st = NoComment \<or>
        Suc (offset st) < i \<and> s ! offset st = SLASH
        \<and> s ! Suc (offset st) = (if isInsideComment st = singleComment then SLASH else STAR))
     \<and> (\<not> ws \<or> length (result st) + length (buffer st) = offset st)
     \<and> (commaIndex st = -1 \<or>
        0 \<le> commaIndex st \<and> nat (commaIndex st) < i \<and> s ! nat (commaIndex st) = COMMA
        \<and> startsWithComma (pendOf ws s i st)
        \<and> (\<not> ws \<or> length (result st) = nat (commaIndex st)))"

lemma length_slice: "a \<le> i \<Longrightarrow> i \<le> length s \<Longrightarrow> length (slice_str s a i) = i - a"
  by (simp add: slice_str_def)

lemma length_stripFirst_ws: "ws \<Longrightarrow> length (stripFirst ws buf) = length buf"
  by (simp add: length_stripFirst)

lemma length_erase_ws: "ws \<Longrightarrow> length (erase ws cs) = length cs"
  by (simp add: length_erase)

lemmas inv2_simps = body_def Let_def charAt_nth charAt_next Inv_def Inv2_def pendOf_def
  slice_snoc slice_snoc2 slice_same slice_one stripFirst_strip stripFirst_erase strip_erase
  erase_append erase_Nil length_slice length_stripFirst_ws length_erase_ws
  startsWithComma_append startsWithComma_Cons startsWithComma_Nil

lemma inv2_string:
  assumes inv: "Inv s tc i st" and inv2: "Inv2 s ws i st" and lt: "i < length s"
    and m: "isInsideComment st = NoComment" "isInsideString st"
  shows "Inv2 s ws (fst (body s ws tc i st) + 1) (snd (body s ws tc i st))"
proof -
  have o: "offset st \<le> i" using inv by (simp add: Inv_def)
  have t: "commaIndex st = -1 \<or> tc" using inv by (simp add: Inv_def)
  consider (plain) "s ! i \<noteq> QUOTE" | (esc) "s ! i = QUOTE" "isEscaped s i"
    | (close) "s ! i = QUOTE" "\<not> isEscaped s i" "commaIndex st = -1"
    | (cancel) "s ! i = QUOTE" "\<not> isEscaped s i" "commaIndex st \<noteq> -1" "tc"
    using t by blast
  then show ?thesis
  proof cases
    case plain
    then show ?thesis using inv2 lt m o t by (auto simp add: inv2_simps)
  next
    case esc
    then show ?thesis using inv2 lt m o t by (auto simp add: inv2_simps)
  next
    case close
    then show ?thesis using inv2 lt m o by (auto simp add: inv2_simps)
  next
    case cancel
    then show ?thesis using inv2 lt m o by (auto simp add: inv2_simps)
  qed
qed


lemma inv2_normal:
  assumes inv: "Inv s tc i st" and inv2: "Inv2 s ws i st" and lt: "i < length s"
    and m: "isInsideComment st = NoComment" "\<not> isInsideString st"
  shows "Inv2 s ws (fst (body s ws tc i st) + 1) (snd (body s ws tc i st))"
proof -
  have o: "offset st \<le> i" using inv by (simp add: Inv_def)
  have t: "commaIndex st = -1 \<or> tc" using inv by (simp add: Inv_def)
  consider (quote) "s ! i = QUOTE" "\<not> isEscaped s i"
    | (line) "s ! i = SLASH" "lookahead (drop (Suc i) s) = Some SLASH"
    | (block) "s ! i = SLASH" "lookahead (drop (Suc i) s) = Some STAR"
    | (other) "s ! i = QUOTE \<longrightarrow> isEscaped s i"
        "s ! i = SLASH \<longrightarrow> lookahead (drop (Suc i) s) \<noteq> Some SLASH
           \<and> lookahead (drop (Suc i) s) \<noteq> Some STAR"
    by blast
  then show ?thesis
  proof cases
    case quote
    then show ?thesis using inv2 lt m o t by (auto simp add: inv2_simps)
  next
    case line
    then have "Suc i < length s" "s ! Suc i = SLASH"
      by (simp_all add: lookahead_drop)
    then show ?thesis using line inv2 lt m o t by (auto simp add: inv2_simps)
  next
    case block
    then have "Suc i < length s" "s ! Suc i = STAR"
      by (simp_all add: lookahead_drop)
    then show ?thesis using block inv2 lt m o t by (auto simp add: inv2_simps)
  next
    case other
    consider (notc) "\<not> tc" "commaIndex st = -1"
      | (confirm) "tc" "commaIndex st \<noteq> -1" "s ! i = RBRACE \<or> s ! i = RBRACKET"
      | (cancel) "tc" "commaIndex st \<noteq> -1" "s ! i \<noteq> RBRACE" "s ! i \<noteq> RBRACKET"
          "s ! i \<noteq> SPACE" "s ! i \<noteq> TAB" "s ! i \<noteq> CR" "s ! i \<noteq> LF"
      | (keep) "tc" "commaIndex st \<noteq> -1" "s ! i = SPACE \<or> s ! i = TAB \<or> s ! i = CR \<or> s ! i = LF"
      | (newcomma) "tc" "commaIndex st = -1" "s ! i = COMMA"
      | (nocomma) "tc" "commaIndex st = -1" "s ! i \<noteq> COMMA"
      using t by blast
    then show ?thesis
    proof cases
      case notc
      then show ?thesis using other inv2 lt m o
        by (auto simp add: inv2_simps cong: conj_cong)
    next
      case confirm
      then show ?thesis using other inv2 lt m o
        by (auto simp add: inv2_simps cong: conj_cong)
    next
      case cancel
      then show ?thesis using other inv2 lt m o
        by (auto simp add: inv2_simps cong: conj_cong)
    next
      case keep
      then show ?thesis using other inv2 lt m o
        by (auto simp add: inv2_simps cong: conj_cong)
    next
      case newcomma
      then show ?thesis using other inv2 lt m o
        by (auto simp add: inv2_simps cong: conj_cong)
    next
      case nocomma
      then show ?thesis using other inv2 lt m o
        by (auto simp add: inv2_simps cong: conj_cong)
    qed
  qed
qed

lemma inv2_line:
  assumes inv: "Inv s tc i st" and inv2: "Inv2 s ws i st" and lt: "i < length s"
    and m: "isInsideComment st = singleComment"
  shows "Inv2 s ws (fst (body s ws tc i st) + 1) (snd (body s ws tc i st))"
proof -
  have o: "offset st \<le> i" using inv by (simp add: Inv_def)
  have ns: "\<not> isInsideString st" using inv m by (simp add: Inv_def)
  consider (crlf) "s ! i = CR" "lookahead (drop (Suc i) s) = Some LF"
    | (lf) "s ! i = LF"
    | (other) "s ! i \<noteq> LF" "s ! i = CR \<longrightarrow> lookahead (drop (Suc i) s) \<noteq> Some LF"
    by blast
  then show ?thesis
  proof cases
    case crlf
    then have "Suc i < length s" "s ! Suc i = LF"
      by (simp_all add: lookahead_drop)
    then show ?thesis using crlf inv2 lt m o ns by (auto simp add: inv2_simps)
  next
    case lf
    then show ?thesis using inv2 lt m o ns by (auto simp add: inv2_simps)
  next
    case other
    then show ?thesis using inv2 lt m o ns by (auto simp add: inv2_simps cong: conj_cong)
  qed
qed

lemma inv2_block:
  assumes inv: "Inv s tc i st" and inv2: "Inv2 s ws i st" and lt: "i < length s"
    and m: "isInsideComment st = multiComment"
  shows "Inv2 s ws (fst (body s ws tc i st) + 1) (snd (body s ws tc i st))"
proof -
  have o: "offset st \<le> i" using inv by (simp add: Inv_def)
  have ns: "\<not> isInsideString st" using inv m by (simp add: Inv_def)
  consider (exit) "s ! i = STAR" "lookahead (drop (Suc i) s) = Some SLASH"
    | (other) "s ! i = STAR \<longrightarrow> lookahead (drop (Suc i) s) \<noteq> Some SLASH"
    by blast
  then show ?thesis
  proof cases
    case exit
    then have "Suc i < length s" "s ! Suc i = SLASH"
      by (simp_all add: lookahead_drop)
    then show ?thesis using exit inv2 lt m o ns by (auto simp add: inv2_simps)
  next
    case other
    then show ?thesis using inv2 lt m o ns by (auto simp add: inv2_simps cong: conj_cong)
  qed
qed

lemma inv2_step:
  assumes "Inv s tc i st" and "Inv2 s ws i st" and "i < length s"
  shows "Inv2 s ws (fst (body s ws tc i st) + 1) (snd (body s ws tc i st))"
proof (cases "isInsideComment st")
  case NoComment
  then show ?thesis
    using assms inv2_string [of s tc i st ws] inv2_normal [of s tc i st ws]
    by (cases "isInsideString st") simp_all
next
  case singleComment
  with assms show ?thesis by (rule_tac inv2_line)
next
  case multiComment
  with assms show ?thesis by (rule_tac inv2_block)
qed

lemma Inv2_loop:
  "Inv s tc i st \<Longrightarrow> Inv2 s ws i st \<Longrightarrow> Inv2 s ws (length s) (loop s ws tc i st)"
proof (induction s ws tc i st rule: loop.induct)
  case (1 s ws tc i st)
  show ?case
  proof (cases "i < length s")
    case True
    have "Inv s tc (fst (body s ws tc i st) + 1) (snd (body s ws tc i st))"
      using sim_step [OF "1.prems"(1) True, of ws] by simp
    moreover have "Inv2 s ws (fst (body s ws tc i st) + 1) (snd (body s ws tc i st))"
      using "1.prems" True by (rule inv2_step)
    ultimately show ?thesis
      using "1.IH" [OF True] by (simp add: loop_step [OF True])
  next
    case False
    then have "i = length s" using "1.prems"(1) by (simp add: Inv_def)
    then show ?thesis using "1.prems"(2) by (simp add: loop_done)
  qed
qed

lemma Inv2_initial: "Inv2 s ws 0 initial"
  by (simp add: Inv2_def initial_def)

lemma Inv2_scanEnd: "Inv2 s ws (length s) (scanEnd s ws tc)"
  unfolding scanEnd_def using Inv_initial Inv2_initial by (rule Inv2_loop)


text \<open>
  While a comma is pending and only JSON white space has followed it, nothing has
  been buffered: \<open>offset\<close> is still the position of the comma.
\<close>

definition Inv3 :: "jsstring \<Rightarrow> nat \<Rightarrow> scan_state \<Rightarrow> bool" where
  "Inv3 s i st \<longleftrightarrow>
     commaIndex st = -1
     \<or> (\<exists>j. nat (commaIndex st) < j \<and> j < i \<and> \<not> jsonSpace (s ! j))
     \<or> isInsideComment st = NoComment \<and> \<not> isInsideString st \<and> buffer st = []
        \<and> offset st = nat (commaIndex st)"

lemma Inv3_mono:
  "\<exists>j. k < j \<and> j < i \<and> \<not> jsonSpace (s ! j) \<Longrightarrow> i \<le> i' \<Longrightarrow>
     \<exists>j. k < j \<and> j < i' \<and> \<not> jsonSpace (s ! j)"
  by (meson less_le_trans)

lemma body_commaIndex:
  "commaIndex (snd (body s ws tc i st)) = -1
   \<or> commaIndex (snd (body s ws tc i st)) = commaIndex st
   \<or> commaIndex (snd (body s ws tc i st)) = int i
      \<and> isInsideComment (snd (body s ws tc i st)) = NoComment
      \<and> \<not> isInsideString (snd (body s ws tc i st))
      \<and> buffer (snd (body s ws tc i st)) = [] \<and> offset (snd (body s ws tc i st)) = i"
  by (simp add: body_def Let_def)

lemma body_space:
  assumes "isInsideComment st = NoComment" "\<not> isInsideString st" "jsonSpace (s ! i)"
    "i < length s"
  shows "body s ws tc i st = (i, st)"
  using assms by (auto simp add: body_def Let_def charAt_nth jsonSpace_def)

lemma inv3_step:
  assumes inv2: "Inv2 s ws i st" and inv3: "Inv3 s i st" and lt: "i < length s"
  shows "Inv3 s (fst (body s ws tc i st) + 1) (snd (body s ws tc i st))"
proof -
  let ?st' = "snd (body s ws tc i st)" and ?i' = "fst (body s ws tc i st) + 1"
  have i': "i < ?i'" using body_index [of i s ws tc st] by simp
  consider (none) "commaIndex ?st' = -1"
    | (same) "commaIndex ?st' \<noteq> -1" "commaIndex ?st' = commaIndex st"
    | (new) "commaIndex ?st' = int i" "isInsideComment ?st' = NoComment"
        "\<not> isInsideString ?st'" "buffer ?st' = []" "offset ?st' = i"
    using body_commaIndex [of s ws tc i st] by blast
  then show ?thesis
  proof cases
    case none
    then show ?thesis by (simp add: Inv3_def)
  next
    case new
    then show ?thesis by (simp add: Inv3_def)
  next
    case same
    then have k: "nat (commaIndex st) < i"
      using inv2 by (auto simp add: Inv2_def)
    show ?thesis
    proof (cases "jsonSpace (s ! i)")
      case False
      then have "\<exists>j. nat (commaIndex ?st') < j \<and> j < ?i' \<and> \<not> jsonSpace (s ! j)"
        using k i' same by auto
      then show ?thesis by (simp add: Inv3_def)
    next
      case True
      from inv3 same consider
        (broken) "\<exists>j. nat (commaIndex st) < j \<and> j < i \<and> \<not> jsonSpace (s ! j)"
        | (clean) "isInsideComment st = NoComment" "\<not> isInsideString st" "buffer st = []"
            "offset st = nat (commaIndex st)"
        by (auto simp add: Inv3_def)
      then show ?thesis
      proof cases
        case broken
        then have "\<exists>j. nat (commaIndex ?st') < j \<and> j < ?i' \<and> \<not> jsonSpace (s ! j)"
          using Inv3_mono [of "nat (commaIndex st)" i s ?i'] i' same by simp
        then show ?thesis by (simp add: Inv3_def)
      next
        case clean
        then have "body s ws tc i st = (i, st)"
          using True lt by (simp add: body_space)
        then show ?thesis using clean by (simp add: Inv3_def)
      qed
    qed
  qed
qed

lemma Inv3_loop:
  "Inv s tc i st \<Longrightarrow> Inv2 s ws i st \<Longrightarrow> Inv3 s i st
     \<Longrightarrow> Inv3 s (length s) (loop s ws tc i st)"
proof (induction s ws tc i st rule: loop.induct)
  case (1 s ws tc i st)
  show ?case
  proof (cases "i < length s")
    case True
    have "Inv s tc (fst (body s ws tc i st) + 1) (snd (body s ws tc i st))"
      using sim_step [OF "1.prems"(1) True, of ws] by simp
    moreover have "Inv2 s ws (fst (body s ws tc i st) + 1) (snd (body s ws tc i st))"
      using "1.prems"(1,2) True by (rule inv2_step)
    moreover have "Inv3 s (fst (body s ws tc i st) + 1) (snd (body s ws tc i st))"
      using "1.prems"(2,3) True by (rule inv3_step)
    ultimately show ?thesis
      using "1.IH" [OF True] by (simp add: loop_step [OF True])
  next
    case False
    then have "i = length s" using "1.prems"(1) by (simp add: Inv_def)
    then show ?thesis using "1.prems"(3) by (simp add: loop_done)
  qed
qed

lemma Inv3_scanEnd: "Inv3 s (length s) (scanEnd s ws tc)"
  unfolding scanEnd_def
  using Inv_initial Inv2_initial by (rule Inv3_loop) (simp add: Inv3_def initial_def)

lemma stripString_finish: "stripString s ws tc = finish s ws (scanEnd s ws tc)"
  by (simp add: stripString_def scanEnd_def)

lemma stripAll_erase: "stripAll ws cs = erase ws cs"
  by (simp add: stripAll_def strip_erase slice_str_def)

text \<open>
  While a comma is pending, the scan with trailing-comma stripping does to the text
  after the comma what the scan without it does: the state with the candidacy
  forgotten is a state of that other scan.
\<close>

definition unpend :: "scan_state \<Rightarrow> scan_state" where
  "unpend st = st\<lparr>commaIndex := -1, result := []\<rparr>"

definition Inv4 :: "jsstring \<Rightarrow> bool \<Rightarrow> nat \<Rightarrow> scan_state \<Rightarrow> bool" where
  "Inv4 s ws i st \<longleftrightarrow>
     commaIndex st = -1
     \<or> absScan ws False s i (unpend st)
         = scanner ws False Normal False False [COMMA] (drop (Suc (nat (commaIndex st))) s)"

lemma body_unpend:
  assumes "commaIndex (snd (body s ws True i st)) = commaIndex st" and "commaIndex st \<noteq> -1"
  shows "body s ws False i (unpend st)
     = (fst (body s ws True i st), unpend (snd (body s ws True i st)))"
  using assms by (auto simp add: body_def Let_def unpend_def split: if_splits)


lemma body_record:
  "commaIndex (snd (body s ws tc i st)) = -1
   \<or> commaIndex (snd (body s ws tc i st)) = commaIndex st
   \<or> commaIndex (snd (body s ws tc i st)) = int i
      \<and> fst (body s ws tc i st) = i
      \<and> charAt s (int i) = Some COMMA
      \<and> isInsideComment (snd (body s ws tc i st)) = NoComment
      \<and> \<not> isInsideString (snd (body s ws tc i st))
      \<and> buffer (snd (body s ws tc i st)) = [] \<and> offset (snd (body s ws tc i st)) = i"
  by (simp add: body_def Let_def)

lemma Inv_unpend: "Inv s tc i st \<Longrightarrow> Inv s False i (unpend st)"
  by (simp add: Inv_def unpend_def)

lemma inv4_step:
  assumes inv: "Inv s True i st" and inv2: "Inv2 s ws i st" and inv4: "Inv4 s ws i st"
    and lt: "i < length s"
  shows "Inv4 s ws (fst (body s ws True i st) + 1) (snd (body s ws True i st))"
proof -
  let ?st' = "snd (body s ws True i st)" and ?i' = "fst (body s ws True i st)"
  consider (none) "commaIndex ?st' = -1"
    | (same) "commaIndex ?st' \<noteq> -1" "commaIndex ?st' = commaIndex st"
    | (new) "commaIndex ?st' = int i" "?i' = i" "charAt s (int i) = Some COMMA"
        "isInsideComment ?st' = NoComment" "\<not> isInsideString ?st'" "buffer ?st' = []"
        "offset ?st' = i"
    using body_record [of s ws True i st] by blast
  then show ?thesis
  proof cases
    case none
    then show ?thesis by (simp add: Inv4_def)
  next
    case new
    then have c: "s ! i = COMMA" using lt by (simp add: charAt_nth)
    have "absScan ws False s (Suc i) (unpend ?st')
        = scanner ws False Normal False False [COMMA] (drop (Suc i) s)"
      using new c lt
      by (simp add: absScan_def unpend_def modeOf_def pendOf_def slice_one isEscaped_Suc)
    then show ?thesis using new by (simp add: Inv4_def)
  next
    case same
    then have b: "body s ws False i (unpend st) = (?i', unpend ?st')"
      by (simp add: body_unpend)
    have "absScan ws False s (?i' + 1) (unpend ?st') = absScan ws False s i (unpend st)"
      using sim_step [OF Inv_unpend [OF inv] lt, of ws] by (simp add: b)
    then show ?thesis using same inv4 by (simp add: Inv4_def)
  qed
qed

lemma Inv4_loop:
  "Inv s True i st \<Longrightarrow> Inv2 s ws i st \<Longrightarrow> Inv4 s ws i st
     \<Longrightarrow> Inv4 s ws (length s) (loop s ws True i st)"
proof (induction s ws "True" i st rule: loop.induct)
  case (1 s ws i st)
  show ?case
  proof (cases "i < length s")
    case True
    have "Inv s True (fst (body s ws True i st) + 1) (snd (body s ws True i st))"
      using sim_step [OF "1.prems"(1) True, of ws] by simp
    moreover have "Inv2 s ws (fst (body s ws True i st) + 1) (snd (body s ws True i st))"
      using "1.prems"(1,2) True by (rule inv2_step)
    moreover have "Inv4 s ws (fst (body s ws True i st) + 1) (snd (body s ws True i st))"
      using "1.prems" True by (rule inv4_step)
    ultimately show ?thesis
      using "1.hyps" [OF True] by (simp add: loop_step [OF True])
  next
    case False
    then have "i = length s" using "1.prems"(1) by (simp add: Inv_def)
    then show ?thesis using "1.prems"(3) by (simp add: loop_done)
  qed
qed

lemma Inv4_scanEnd: "Inv4 s ws (length s) (scanEnd s ws True)"
  unfolding scanEnd_def
  using Inv_initial Inv2_initial by (rule Inv4_loop) (simp add: Inv4_def initial_def)

lemma pending_text:
  assumes "commaIndex (scanEnd x ws True) \<noteq> -1"
  shows "stripString x ws True = result (scanEnd x ws True)
     @ COMMA # stripString (drop (Suc (nat (commaIndex (scanEnd x ws True)))) x) ws False"
proof -
  let ?f = "scanEnd x ws True"
  have "absScan ws False x (length x) (unpend ?f)
      = scanner ws False Normal False False [COMMA] (drop (Suc (nat (commaIndex ?f))) x)"
    using Inv4_scanEnd [of x ws] assms by (simp add: Inv4_def)
  moreover have "pendOf ws x (length x) (unpend ?f) = pendOf ws x (length x) ?f"
    by (simp add: pendOf_def unpend_def)
  ultimately have "pendOf ws x (length x) ?f
      = COMMA # stripString (drop (Suc (nat (commaIndex ?f))) x) ws False"
    by (simp add: absScan_def unpend_def scanner.simps scanner_flush1 stripString_scanner)
  then show ?thesis
    using stripString_pend [of x ws True] by (simp add: scanEnd_def)
qed

section \<open>The end of the input\<close>

text \<open>
  C9. When the input ends inside a comment, \<open>offset\<close> is the position of the \<open>//\<close> or
  \<open>/*\<close> that opened it, and the output is what was emitted before the comment
  followed by the whole tail from there, stripped: blanked when white space is
  preserved (the output then has the tail at the same positions), removed otherwise.
\<close>

theorem unterminated_comment:
  assumes "isInsideComment (scanEnd x whitespace trailingCommas) \<noteq> NoComment"
  shows "Suc (offset (scanEnd x whitespace trailingCommas)) < length x
     \<and> x ! offset (scanEnd x whitespace trailingCommas) = SLASH
     \<and> x ! Suc (offset (scanEnd x whitespace trailingCommas))
         = (if isInsideComment (scanEnd x whitespace trailingCommas) = singleComment
            then SLASH else STAR)
     \<and> stripString x whitespace trailingCommas
         = result (scanEnd x whitespace trailingCommas)
           @ buffer (scanEnd x whitespace trailingCommas)
           @ stripAll whitespace (drop (offset (scanEnd x whitespace trailingCommas)) x)
     \<and> (whitespace \<longrightarrow>
          length (stripString x whitespace trailingCommas) = length x
          \<and> drop (offset (scanEnd x whitespace trailingCommas))
                (stripString x whitespace trailingCommas)
              = map (\<lambda>c. if isWhitespace c then c else SPACE)
                  (drop (offset (scanEnd x whitespace trailingCommas)) x))
     \<and> (\<not> whitespace \<longrightarrow>
          stripString x whitespace trailingCommas
            = result (scanEnd x whitespace trailingCommas)
              @ buffer (scanEnd x whitespace trailingCommas))"
proof -
  let ?f = "scanEnd x whitespace trailingCommas"
  let ?out = "stripString x whitespace trailingCommas"
  have "Inv2 x whitespace (length x) ?f" by (rule Inv2_scanEnd)
  with assms have a: "Suc (offset ?f) < length x" "x ! offset ?f = SLASH"
    "x ! Suc (offset ?f) = (if isInsideComment ?f = singleComment then SLASH else STAR)"
    and len: "whitespace \<longrightarrow> length (result ?f @ buffer ?f) = offset ?f"
    by (simp_all add: Inv2_def)
  have out: "?out = result ?f @ buffer ?f @ stripAll whitespace (drop (offset ?f) x)"
    using assms by (simp add: stripString_finish finish_def sliceFrom_def)
  have ws: "length ?out = length x
      \<and> drop (offset ?f) ?out
          = map (\<lambda>c. if isWhitespace c then c else SPACE) (drop (offset ?f) x)"
    if w: whitespace
  proof -
    have l: "length (result ?f @ buffer ?f) = offset ?f" using len w by simp
    have "?out = (result ?f @ buffer ?f) @ map blank (drop (offset ?f) x)"
      using out w by (simp add: stripAll_erase erase_def)
    then have "drop (offset ?f) ?out = map blank (drop (offset ?f) x)"
      using l by (metis append_eq_conv_conj)
    moreover have "length ?out = length x"
      using w length_scanner [of whitespace trailingCommas Normal False False "[]" x]
      by (simp add: stripString_scanner)
    ultimately show ?thesis
      by (simp add: blank_def [abs_def])
  qed
  have nws: "?out = result ?f @ buffer ?f" if "\<not> whitespace"
    using out that by (simp add: stripAll_erase erase_def)
  from a out ws nws show ?thesis by blast
qed

theorem unterminated_comment_witness:
  "isInsideComment (scanEnd (js ''// unterminated'') True False) \<noteq> NoComment
   \<and> offset (scanEnd (js ''// unterminated'') True False) = 0
   \<and> length (js ''// unterminated'') = 15
   \<and> stripString (js ''// unterminated'') True False = replicate 15 SPACE
   \<and> stripDefault (JSString (js ''// unterminated'')) = Inr (replicate 15 SPACE)
   \<and> stripString (js ''// unterminated'') False False = []"
proof -
  have h: "isInsideComment (scanEnd (js ''// unterminated'') True False) \<noteq> NoComment"
    by code_simp
  have c: "offset (scanEnd (js ''// unterminated'') True False) = 0"
    "length (js ''// unterminated'') = 15"
    "stripString (js ''// unterminated'') True False = replicate 15 SPACE"
    "stripString (js ''// unterminated'') False False = []"
    by code_simp+
  show ?thesis
    using h c unterminated_comment [OF h]
    by (simp add: stripDefault_def stripJsonComments_def del: replicate.simps)
qed


text \<open>
  C10. When the input ends with a comma still pending, the comma is at
  \<open>commaIndex\<close> in the input and is in the output, right after \<open>result\<close> (at its own
  position when white space is preserved): nothing strips it at the end of the
  input. After the comma the output is what the stripper without trailing-comma
  stripping makes of the rest of the input: comments are stripped there, nothing
  else is. When only JSON white space follows the comma, the output ends with the
  input from the comma on, unchanged.
\<close>

theorem pending_comma_at_end:
  assumes "commaIndex (scanEnd x whitespace True) \<noteq> -1"
  shows "0 \<le> commaIndex (scanEnd x whitespace True)
     \<and> nat (commaIndex (scanEnd x whitespace True)) < length x
     \<and> x ! nat (commaIndex (scanEnd x whitespace True)) = COMMA
     \<and> (\<exists>r. stripString x whitespace True = result (scanEnd x whitespace True) @ COMMA # r)
     \<and> (whitespace \<longrightarrow>
          length (result (scanEnd x whitespace True)) = nat (commaIndex (scanEnd x whitespace True)))
     \<and> stripString x whitespace True
          = result (scanEnd x whitespace True) @ COMMA #
            stripString (drop (Suc (nat (commaIndex (scanEnd x whitespace True)))) x)
              whitespace False
     \<and> ((\<forall>j. nat (commaIndex (scanEnd x whitespace True)) < j \<and> j < length x
              \<longrightarrow> jsonSpace (x ! j)) \<longrightarrow>
          stripString x whitespace True
            = result (scanEnd x whitespace True)
              @ drop (nat (commaIndex (scanEnd x whitespace True))) x)"
proof -
  let ?f = "scanEnd x whitespace True"
  let ?k = "nat (commaIndex ?f)"
  have "Inv2 x whitespace (length x) ?f" by (rule Inv2_scanEnd)
  with assms have a: "0 \<le> commaIndex ?f" "?k < length x" "x ! ?k = COMMA"
    "startsWithComma (pendOf whitespace x (length x) ?f)"
    "whitespace \<longrightarrow> length (result ?f) = ?k"
    by (simp_all add: Inv2_def)
  from a(4) obtain r where "pendOf whitespace x (length x) ?f = COMMA # r"
    by (auto simp add: startsWithComma_def)
  then have b: "\<exists>r. stripString x whitespace True = result ?f @ COMMA # r"
    using stripString_pend [of x whitespace True] by (simp add: scanEnd_def)
  have c: "stripString x whitespace True = result ?f @ drop ?k x"
    if sp: "\<forall>j. ?k < j \<and> j < length x \<longrightarrow> jsonSpace (x ! j)"
  proof -
    have "Inv3 x (length x) ?f" by (rule Inv3_scanEnd)
    with assms sp have "isInsideComment ?f = NoComment" "buffer ?f = []" "offset ?f = ?k"
      by (auto simp add: Inv3_def)
    then show ?thesis
      by (simp add: stripString_finish finish_def sliceFrom_def)
  qed
  have d: "stripString x whitespace True
      = result ?f @ COMMA # stripString (drop (Suc ?k) x) whitespace False"
    using assms by (rule pending_text)
  from a(1,2,3,5) b c d show ?thesis by blast
qed

theorem pending_comma_at_end_witness:
  "commaIndex (scanEnd (js ''[1, '') True True) \<noteq> -1
   \<and> commaIndex (scanEnd (js ''[1, '') True True) = 2
   \<and> stripString (js ''[1, '') True True = js ''[1, ''
   \<and> stripString (js ''[1, '') False True = js ''[1, ''
   \<and> stripString (js ''[1, // }'') True True = js ''[1,     ''"
proof -
  have h: "commaIndex (scanEnd (js ''[1, '') True True) \<noteq> -1"
    by code_simp
  have c: "commaIndex (scanEnd (js ''[1, '') True True) = 2"
    "stripString (js ''[1, '') True True = js ''[1, ''"
    "stripString (js ''[1, '') False True = js ''[1, ''"
    "stripString (js ''[1, // }'') True True = js ''[1,     ''"
    by code_simp+
  show ?thesis
    using h c pending_comma_at_end [OF h] by simp
qed

section \<open>Trailing commas\<close>

text \<open>
  What may stand between a comma and the next token: JSON white space (space, tab,
  carriage return, line feed) and whole comments, a line comment with the line feed
  that ends it and a block comment up to its first \<open>*/\<close>. \<open>gapText\<close> is the text of
  such a gap and \<open>gapOut\<close> what the stripper leaves of it.
\<close>

datatype gap_item = Space code_unit | LineComment jsstring | BlockComment jsstring

fun itemText :: "gap_item \<Rightarrow> jsstring" where
  "itemText (Space c) = [c]"
| "itemText (LineComment inner) = SLASH # SLASH # inner @ [LF]"
| "itemText (BlockComment inner) = SLASH # STAR # inner @ [STAR, SLASH]"

fun itemOk :: "gap_item \<Rightarrow> bool" where
  "itemOk (Space c) = jsonSpace c"
| "itemOk (LineComment inner) = (LF \<notin> set inner)"
| "itemOk (BlockComment inner) = (\<not> hasBlockEnd (inner @ [STAR]))"

fun itemOut :: "bool \<Rightarrow> gap_item \<Rightarrow> jsstring" where
  "itemOut ws (Space c) = [c]"
| "itemOut ws (LineComment inner) = erase ws (SLASH # SLASH # inner) @ [LF]"
| "itemOut ws (BlockComment inner) = erase ws (SLASH # STAR # inner @ [STAR, SLASH])"

definition gapText :: "gap_item list \<Rightarrow> jsstring" where
  "gapText g = concat (map itemText g)"

definition isGap :: "gap_item list \<Rightarrow> bool" where
  "isGap g = list_all itemOk g"

definition gapOut :: "bool \<Rightarrow> gap_item list \<Rightarrow> jsstring" where
  "gapOut ws g = concat (map (itemOut ws) g)"

text \<open>A gap is scanned without a change of mode or of candidacy.\<close>

lemma scanner_item:
  assumes "itemOk x"
  shows "scanner ws tc Normal False cand pend (itemText x @ rest)
     = scanner ws tc Normal False cand (pend @ itemOut ws x) rest"
proof (cases x)
  case (Space c)
  then have "jsonSpace c" using assms by simp
  then have "c \<noteq> QUOTE" "c \<noteq> SLASH" "c \<noteq> COMMA" "c \<noteq> RBRACE" "c \<noteq> RBRACKET"
    "c \<noteq> BACKSLASH"
    by (auto simp add: jsonSpace_def)
  then show ?thesis using Space \<open>jsonSpace c\<close>
    by (simp add: scanner.simps plain_def)
next
  case (LineComment inner)
  then have "LF \<notin> set inner" using assms by simp
  moreover have "erase ws (SLASH # SLASH # inner) = erase ws [SLASH, SLASH] @ erase ws inner"
    by (simp add: erase_def)
  ultimately show ?thesis using LineComment
    by (simp add: scanner.simps lookahead_def scanner_in_line)
next
  case (BlockComment inner)
  then have "\<not> hasBlockEnd (inner @ [STAR])" using assms by simp
  moreover have "erase ws (SLASH # STAR # inner @ [STAR, SLASH])
      = erase ws [SLASH, STAR] @ erase ws (inner @ [STAR, SLASH])"
    by (simp add: erase_def)
  ultimately show ?thesis using BlockComment
    by (simp add: scanner.simps lookahead_def scanner_in_block)
qed

lemma scanner_gap:
  "isGap g \<Longrightarrow> scanner ws tc Normal False cand pend (gapText g @ rest)
     = scanner ws tc Normal False cand (pend @ gapOut ws g) rest"
proof (induction g arbitrary: pend)
  case Nil
  then show ?case by (simp add: gapText_def gapOut_def)
next
  case (Cons x g)
  then have x: "itemOk x" and g: "isGap g" by (simp_all add: isGap_def)
  have "scanner ws tc Normal False cand pend (gapText (x # g) @ rest)
      = scanner ws tc Normal False cand pend (itemText x @ gapText g @ rest)"
    by (simp add: gapText_def)
  also have "\<dots> = scanner ws tc Normal False cand (pend @ itemOut ws x) (gapText g @ rest)"
    using x by (rule scanner_item)
  also have "\<dots> = scanner ws tc Normal False cand ((pend @ itemOut ws x) @ gapOut ws g) rest"
    using g by (rule Cons.IH)
  finally show ?case by (simp add: gapOut_def)
qed

lemma stripString_gap: "isGap g \<Longrightarrow> stripString (gapText g) ws tc = gapOut ws g"
  using scanner_gap [of g ws tc False "[]" "[]"]
  by (simp add: stripString_scanner scanner.simps)

lemma scanner_string_cand:
  "scanner ws tc InString p cand pend xs = scanner ws tc InString p False pend xs"
  by (induction xs arbitrary: p pend) (simp_all add: scanner.simps)

text \<open>The scan just after a comma that became a candidate.\<close>

lemma after_candidate_closer:
  assumes "isGap g" and "c = RBRACE \<or> c = RBRACKET"
  shows "scanner ws True Normal False True [COMMA] (gapText g @ c # post)
     = erase ws [COMMA] @ gapOut ws g @ c # scanner ws True Normal False False [] post"
proof -
  have "scanner ws True Normal False True [COMMA] (gapText g @ c # post)
      = scanner ws True Normal False True ([COMMA] @ gapOut ws g) (c # post)"
    using assms(1) by (rule scanner_gap)
  also have "\<dots> = stripFirst ws (COMMA # gapOut ws g)
      @ scanner ws True Normal False False ([c] @ []) post"
    using assms(2) by (auto simp add: scanner.simps plain_def)
  also have "scanner ws True Normal False False ([c] @ []) post
      = [c] @ scanner ws True Normal False False [] post"
    by (rule scanner_flush_any)
  finally show ?thesis by (simp add: stripFirst_def)
qed


lemma after_candidate_other:
  assumes "isGap g" and "c \<noteq> RBRACE" "c \<noteq> RBRACKET" "\<not> jsonSpace c"
    and "\<not> (c = SLASH \<and> (lookahead post = Some SLASH \<or> lookahead post = Some STAR))"
  shows "scanner ws True Normal False True [COMMA] (gapText g @ c # post)
     = COMMA # gapOut ws g @
       (if c = COMMA then COMMA # scanner ws True Normal False False [] post
        else scanner ws True Normal False False [] (c # post))"
proof -
  let ?P = "COMMA # gapOut ws g"
  have a: "scanner ws True Normal False True [COMMA] (gapText g @ c # post)
      = scanner ws True Normal False True ([COMMA] @ gapOut ws g) (c # post)"
    using assms(1) by (rule scanner_gap)
  have fl: "\<And>m p q. scanner ws True m p False (?P @ q) post
      = ?P @ scanner ws True m p False q post"
    by (rule scanner_flush_any)
  show ?thesis
  proof (cases "c = QUOTE")
    case True
    have "scanner ws True Normal False True ?P (c # post)
        = scanner ws True InString False False (?P @ [QUOTE]) post"
      using True by (simp add: scanner.simps scanner_string_cand [of ws True False True])
    also have "\<dots> = ?P @ scanner ws True InString False False [QUOTE] post"
      by (rule fl)
    finally show ?thesis using True a by (simp add: scanner.simps)
  next
    case False
    have "scanner ws True Normal False True ?P (c # post)
        = scanner ws True Normal (c = BACKSLASH) False (?P @ [c]) post"
      using False assms(2-5) by (auto simp add: scanner.simps plain_def)
    also have "\<dots> = ?P @ scanner ws True Normal (c = BACKSLASH) False [c] post"
      by (rule fl)
    also have "scanner ws True Normal (c = BACKSLASH) False [c] post
        = (if c = COMMA then COMMA # scanner ws True Normal False False [] post
           else scanner ws True Normal False False [] (c # post))"
      using False assms(2-5) scanner_flush_any [of ws True Normal False "[COMMA]" "[]" post]
      by (auto simp add: scanner.simps plain_def)
    finally show ?thesis using a by simp
  qed
qed

lemma scanner_whole_comment:
  assumes "wholeComment cmt []"
  shows "scanner ws tc Normal False cand pend cmt = pend @ erase ws cmt"
proof -
  consider (line) inner where "cmt = SLASH # SLASH # inner" "LF \<notin> set inner"
    | (block) inner where "cmt = SLASH # STAR # inner @ [STAR, SLASH]"
        "\<not> hasBlockEnd (inner @ [STAR])"
    | (block_open) inner where "cmt = SLASH # STAR # inner" "\<not> hasBlockEnd inner"
    using assms by (auto simp add: wholeComment_def)
  then show ?thesis
  proof cases
    case line
    have "erase ws (SLASH # SLASH # inner) = erase ws [SLASH, SLASH] @ erase ws inner"
      by (simp add: erase_def)
    then show ?thesis using line
      by (simp add: scanner.simps lookahead_def scanner_line_open)
  next
    case block
    have "erase ws (SLASH # STAR # inner @ [STAR, SLASH])
        = erase ws [SLASH, STAR] @ erase ws (inner @ [STAR, SLASH])"
      by (simp add: erase_def)
    moreover have "scanner ws tc InBlockComment False cand (pend @ erase ws [SLASH, STAR])
          (inner @ STAR # SLASH # [])
        = scanner ws tc Normal False cand
           ((pend @ erase ws [SLASH, STAR]) @ erase ws (inner @ [STAR, SLASH])) []"
      using block(2) by (rule scanner_in_block)
    ultimately show ?thesis using block(1)
      by (simp add: scanner.simps lookahead_def)
  next
    case block_open
    have "erase ws (SLASH # STAR # inner) = erase ws [SLASH, STAR] @ erase ws inner"
      by (simp add: erase_def)
    then show ?thesis using block_open
      by (simp add: scanner.simps lookahead_def scanner_block_open)
  qed
qed

lemma after_candidate_end:
  assumes "isGap g" and "cmt = [] \<or> wholeComment cmt []"
  shows "scanner ws True Normal False cand pend (gapText g @ cmt) = pend @ gapOut ws g @ erase ws cmt"
proof -
  have a: "scanner ws True Normal False cand pend (gapText g @ cmt)
      = scanner ws True Normal False cand (pend @ gapOut ws g) cmt"
    using assms(1) by (rule scanner_gap)
  show ?thesis
  proof (cases "cmt = []")
    case True
    then show ?thesis using a by (simp add: scanner.simps erase_Nil)
  next
    case False
    then have "wholeComment cmt []" using assms(2) by simp
    then show ?thesis using a by (simp add: scanner_whole_comment)
  qed
qed

lemma boundarySafe_comma: "boundarySafe pre (COMMA # xs) f"
  by (simp add: boundarySafe_def lookahead_def)

lemma stripString_before_comma:
  assumes "\<not> isInsideString (scanEnd pre ws True)"
    and "isInsideComment (scanEnd pre ws True) = NoComment"
  shows "stripString (pre @ COMMA # rest) ws True
     = stripString pre ws True @
       (if commaIndex (scanEnd pre ws True) = -1
        then scanner ws True Normal False True [COMMA] rest
        else COMMA # stripString rest ws True)"
proof -
  let ?f = "loop pre ws True 0 initial"
  let ?P = "pendOf ws pre (length pre) ?f"
  have m: "modeOf ?f = Normal"
    using assms by (simp add: modeOf_def scanEnd_def)
  have s: "stripString (pre @ COMMA # rest) ws True
      = result ?f @ scanner ws True Normal (isEscaped pre (length pre)) (commaIndex ?f \<noteq> -1) ?P
          (COMMA # rest)"
    using stripString_append [of pre "COMMA # rest" ws True] m
    by (simp add: boundarySafe_comma)
  show ?thesis
  proof (cases "commaIndex ?f = -1")
    case True
    then have "scanner ws True Normal (isEscaped pre (length pre)) (commaIndex ?f \<noteq> -1) ?P
          (COMMA # rest) = ?P @ scanner ws True Normal False True [COMMA] rest"
      by (simp add: scanner.simps plain_def)
    then show ?thesis using True s
      by (simp add: stripString_pend [of pre] scanEnd_def)
  next
    case False
    then have "scanner ws True Normal (isEscaped pre (length pre)) (commaIndex ?f \<noteq> -1) ?P
          (COMMA # rest) = scanner ws True Normal False False ((?P @ [COMMA]) @ []) rest"
      by (simp add: scanner.simps plain_def jsonSpace_def)
    also have "\<dots> = (?P @ [COMMA]) @ scanner ws True Normal False False [] rest"
      by (rule scanner_flush_any)
    finally show ?thesis using False s
      by (simp add: stripString_pend [of pre] scanEnd_def stripString_scanner [of rest])
  qed
qed

text \<open>
  The mode and the candidacy at the end of the scan, as a function of the text:
  \<open>endMode\<close> follows \<open>scanner\<close> and keeps no output. \<open>scanEnd_append\<close> reads the
  variables of the loop at the end of \<open>pre @ rest\<close> from those at the end of \<open>pre\<close>.
\<close>

function (sequential) endMode :: "bool \<Rightarrow> mode \<Rightarrow> bool \<Rightarrow> bool \<Rightarrow> jsstring \<Rightarrow> mode \<times> bool" where
  "endMode tc m p cand [] = (m, cand)"
| "endMode tc Normal p cand (c # xs) =
     (if c = QUOTE \<and> \<not> p then endMode tc InString False cand xs
      else if c = SLASH \<and> lookahead xs = Some SLASH then endMode tc InLineComment False cand (tl xs)
      else if c = SLASH \<and> lookahead xs = Some STAR then endMode tc InBlockComment False cand (tl xs)
      else endMode tc Normal (c = BACKSLASH \<and> \<not> p) (fst (snd (plain False tc cand [] c))) xs)"
| "endMode tc InString p cand (c # xs) =
     (if c = QUOTE \<and> \<not> p then endMode tc Normal False False xs
      else endMode tc InString (c = BACKSLASH \<and> \<not> p) cand xs)"
| "endMode tc InLineComment p cand (c # xs) =
     (if c = CR \<and> lookahead xs = Some LF then endMode tc Normal False cand (tl xs)
      else if c = LF then endMode tc Normal False cand xs
      else endMode tc InLineComment (c = BACKSLASH \<and> \<not> p) cand xs)"
| "endMode tc InBlockComment p cand (c # xs) =
     (if c = STAR \<and> lookahead xs = Some SLASH then endMode tc Normal False cand (tl xs)
      else endMode tc InBlockComment (c = BACKSLASH \<and> \<not> p) cand xs)"
  by pat_completeness auto
termination
  by (relation "measure (\<lambda>(tc, m, p, cand, xs). length xs)") auto

declare endMode.simps [simp del]

definition endAbs :: "bool \<Rightarrow> jsstring \<Rightarrow> nat \<Rightarrow> scan_state \<Rightarrow> mode \<times> bool" where
  "endAbs tc s i st =
     endMode tc (modeOf st) (isEscaped s i) (commaIndex st \<noteq> -1) (drop i s)"

lemmas end_simps = body_def Let_def charAt_nth charAt_next endAbs_def modeOf_def
  endMode.simps Inv_def isEscaped_Suc plain_def jsonSpace_def tl_drop_Suc

lemma end_string:
  assumes inv: "Inv s tc i st" and lt: "i < length s"
    and m: "isInsideComment st = NoComment" "isInsideString st"
  shows "endAbs tc s (fst (body s ws tc i st) + 1) (snd (body s ws tc i st)) = endAbs tc s i st"
proof -
  have d: "drop i s = s ! i # drop (Suc i) s"
    using lt by (simp add: Cons_nth_drop_Suc)
  have o: "offset st \<le> i" using inv by (simp add: Inv_def)
  have t: "commaIndex st = -1 \<or> tc" using inv by (simp add: Inv_def)
  consider (plain) "s ! i \<noteq> QUOTE" | (esc) "s ! i = QUOTE" "isEscaped s i"
    | (close) "s ! i = QUOTE" "\<not> isEscaped s i" "commaIndex st = -1"
    | (cancel) "s ! i = QUOTE" "\<not> isEscaped s i" "commaIndex st \<noteq> -1" "tc"
    using t by blast
  then show ?thesis
  proof cases
    case plain
    then show ?thesis using lt m o t by (simp add: end_simps d)
  next
    case esc
    then show ?thesis using lt m o t by (simp add: end_simps d)
  next
    case close
    then show ?thesis using lt m o by (simp add: end_simps d)
  next
    case cancel
    then show ?thesis using lt m o by (simp add: end_simps d)
  qed
qed

lemma end_normal:
  assumes inv: "Inv s tc i st" and lt: "i < length s"
    and m: "isInsideComment st = NoComment" "\<not> isInsideString st"
  shows "endAbs tc s (fst (body s ws tc i st) + 1) (snd (body s ws tc i st)) = endAbs tc s i st"
proof -
  have d: "drop i s = s ! i # drop (Suc i) s"
    using lt by (simp add: Cons_nth_drop_Suc)
  have o: "offset st \<le> i" using inv by (simp add: Inv_def)
  have t: "commaIndex st = -1 \<or> tc" using inv by (simp add: Inv_def)
  consider (quote) "s ! i = QUOTE" "\<not> isEscaped s i"
    | (line) "s ! i = SLASH" "lookahead (drop (Suc i) s) = Some SLASH"
    | (block) "s ! i = SLASH" "lookahead (drop (Suc i) s) = Some STAR"
    | (other) "s ! i = QUOTE \<longrightarrow> isEscaped s i"
        "s ! i = SLASH \<longrightarrow> lookahead (drop (Suc i) s) \<noteq> Some SLASH
           \<and> lookahead (drop (Suc i) s) \<noteq> Some STAR"
    by blast
  then show ?thesis
  proof cases
    case quote
    then show ?thesis using lt m o t by (simp add: end_simps d)
  next
    case line
    then have "Suc i < length s" "s ! Suc i = SLASH"
      by (simp_all add: lookahead_drop)
    then show ?thesis using line lt m o t by (simp add: end_simps d)
  next
    case block
    then have "Suc i < length s" "s ! Suc i = STAR"
      by (simp_all add: lookahead_drop)
    then show ?thesis using block lt m o t by (simp add: end_simps d)
  next
    case other
    consider (notc) "\<not> tc" "commaIndex st = -1"
      | (confirm) "tc" "commaIndex st \<noteq> -1" "s ! i = RBRACE \<or> s ! i = RBRACKET"
      | (cancel) "tc" "commaIndex st \<noteq> -1" "s ! i \<noteq> RBRACE" "s ! i \<noteq> RBRACKET"
          "s ! i \<noteq> SPACE" "s ! i \<noteq> TAB" "s ! i \<noteq> CR" "s ! i \<noteq> LF"
      | (keep) "tc" "commaIndex st \<noteq> -1" "s ! i = SPACE \<or> s ! i = TAB \<or> s ! i = CR \<or> s ! i = LF"
      | (newcomma) "tc" "commaIndex st = -1" "s ! i = COMMA"
      | (nocomma) "tc" "commaIndex st = -1" "s ! i \<noteq> COMMA"
      using t by blast
    then show ?thesis
    proof cases
      case notc
      then show ?thesis using other lt m o
        by (simp add: end_simps d cong: conj_cong)
    next
      case confirm
      then show ?thesis using other lt m o
        by (auto simp add: end_simps d cong: conj_cong)
    next
      case cancel
      then show ?thesis using other lt m o
        by (simp add: end_simps d cong: conj_cong)
    next
      case keep
      then show ?thesis using other lt m o
        by (auto simp add: end_simps d cong: conj_cong)
    next
      case newcomma
      then show ?thesis using other lt m o
        by (simp add: end_simps d cong: conj_cong)
    next
      case nocomma
      then show ?thesis using other lt m o
        by (simp add: end_simps d cong: conj_cong)
    qed
  qed
qed

lemma end_line:
  assumes inv: "Inv s tc i st" and lt: "i < length s"
    and m: "isInsideComment st = singleComment"
  shows "endAbs tc s (fst (body s ws tc i st) + 1) (snd (body s ws tc i st)) = endAbs tc s i st"
proof -
  have d: "drop i s = s ! i # drop (Suc i) s"
    using lt by (simp add: Cons_nth_drop_Suc)
  have o: "offset st \<le> i" using inv by (simp add: Inv_def)
  have t: "commaIndex st = -1 \<or> tc" using inv by (simp add: Inv_def)
  have ns: "\<not> isInsideString st" using inv m by (simp add: Inv_def)
  consider (crlf) "s ! i = CR" "lookahead (drop (Suc i) s) = Some LF"
    | (lf) "s ! i = LF"
    | (other) "s ! i \<noteq> LF" "s ! i = CR \<longrightarrow> lookahead (drop (Suc i) s) \<noteq> Some LF"
    by blast
  then show ?thesis
  proof cases
    case crlf
    then have "Suc i < length s" "s ! Suc i = LF"
      by (simp_all add: lookahead_drop)
    then show ?thesis using crlf lt m o t ns by (simp add: end_simps d)
  next
    case lf
    then show ?thesis using lt m o t ns by (simp add: end_simps d)
  next
    case other
    then show ?thesis using lt m o t ns by (simp add: end_simps d cong: conj_cong)
  qed
qed

lemma end_block:
  assumes inv: "Inv s tc i st" and lt: "i < length s"
    and m: "isInsideComment st = multiComment"
  shows "endAbs tc s (fst (body s ws tc i st) + 1) (snd (body s ws tc i st)) = endAbs tc s i st"
proof -
  have d: "drop i s = s ! i # drop (Suc i) s"
    using lt by (simp add: Cons_nth_drop_Suc)
  have o: "offset st \<le> i" using inv by (simp add: Inv_def)
  have t: "commaIndex st = -1 \<or> tc" using inv by (simp add: Inv_def)
  have ns: "\<not> isInsideString st" using inv m by (simp add: Inv_def)
  consider (exit) "s ! i = STAR" "lookahead (drop (Suc i) s) = Some SLASH"
    | (other) "s ! i = STAR \<longrightarrow> lookahead (drop (Suc i) s) \<noteq> Some SLASH"
    by blast
  then show ?thesis
  proof cases
    case exit
    then have "Suc i < length s" "s ! Suc i = SLASH"
      by (simp_all add: lookahead_drop)
    then show ?thesis using exit lt m o t ns by (simp add: end_simps d)
  next
    case other
    then show ?thesis using lt m o t ns by (simp add: end_simps d cong: conj_cong)
  qed
qed

lemma end_step:
  assumes "Inv s tc i st" and "i < length s"
  shows "endAbs tc s (fst (body s ws tc i st) + 1) (snd (body s ws tc i st)) = endAbs tc s i st"
proof (cases "isInsideComment st")
  case NoComment
  then show ?thesis
    using assms end_string [of s tc i st ws] end_normal [of s tc i st ws]
    by (cases "isInsideString st") simp_all
next
  case singleComment
  then show ?thesis using assms by (rule_tac end_line)
next
  case multiComment
  then show ?thesis using assms by (rule_tac end_block)
qed

lemma loop_endAbs:
  "Inv s tc i st \<Longrightarrow> endAbs tc s (length s) (loop s ws tc i st) = endAbs tc s i st"
proof (induction s ws tc i st rule: loop.induct)
  case (1 s ws tc i st)
  show ?case
  proof (cases "i < length s")
    case True
    have inv': "Inv s tc (fst (body s ws tc i st) + 1) (snd (body s ws tc i st))"
      using sim_step [OF "1.prems" True, of ws] by simp
    show ?thesis
      using "1.IH" [OF True inv'] end_step [OF "1.prems" True, of ws]
      by (simp add: loop_step [OF True])
  next
    case False
    then have "i = length s" using "1.prems" by (simp add: Inv_def)
    then show ?thesis by (simp add: loop_done)
  qed
qed

lemma endAbs_end: "endAbs tc s (length s) st = (modeOf st, commaIndex st \<noteq> -1)"
  by (simp add: endAbs_def endMode.simps)

lemma scanEnd_append:
  assumes "pre \<noteq> [] \<longrightarrow> boundarySafe pre rest (scanEnd pre ws tc)"
  shows "(modeOf (scanEnd (pre @ rest) ws tc), commaIndex (scanEnd (pre @ rest) ws tc) \<noteq> -1)
     = endMode tc (modeOf (scanEnd pre ws tc)) (isEscaped pre (length pre))
         (commaIndex (scanEnd pre ws tc) \<noteq> -1) rest"
proof -
  let ?f = "loop pre ws tc 0 initial"
  have inv: "Inv (pre @ rest) tc (length pre) ?f"
    using Inv_loop [OF Inv_initial, of pre tc ws] by (rule Inv_append)
  have "scanEnd (pre @ rest) ws tc = loop (pre @ rest) ws tc (length pre) ?f"
    using loop_prefix [OF Inv_initial, of pre rest ws tc] assms by (simp add: scanEnd_def)
  then have "endAbs tc (pre @ rest) (length (pre @ rest)) (scanEnd (pre @ rest) ws tc)
      = endAbs tc (pre @ rest) (length pre) ?f"
    using loop_endAbs [OF inv, of ws] by simp
  then have "(modeOf (scanEnd (pre @ rest) ws tc), commaIndex (scanEnd (pre @ rest) ws tc) \<noteq> -1)
      = endAbs tc (pre @ rest) (length pre) ?f"
    by (simp only: endAbs_end)
  then show ?thesis
    by (simp add: endAbs_def isEscaped_append scanEnd_def)
qed


lemma endMode_in_block:
  "\<not> hasBlockEnd (inner @ [STAR]) \<Longrightarrow>
     endMode tc InBlockComment p cand (inner @ STAR # SLASH # rest)
       = endMode tc Normal False cand rest"
proof (induction inner arbitrary: p)
  case Nil
  then show ?case by (simp add: endMode.simps lookahead_def)
next
  case (Cons c cs)
  from Cons.prems have n: "\<not> (c = STAR \<and> lookahead (cs @ [STAR]) = Some SLASH)"
    and r: "\<not> hasBlockEnd (cs @ [STAR])"
    by (simp_all add: hasBlockEnd_Cons)
  have "lookahead (cs @ STAR # SLASH # rest) = lookahead (cs @ [STAR])"
    by (simp add: lookahead_append_Cons)
  with n have "\<not> (c = STAR \<and> lookahead (cs @ STAR # SLASH # rest) = Some SLASH)"
    by simp
  then show ?case
    using Cons.IH [OF r, of "c = BACKSLASH \<and> \<not> p"]
    by (auto simp add: endMode.simps)
qed

lemma endMode_in_line:
  "LF \<notin> set inner \<Longrightarrow>
     endMode tc InLineComment p cand (inner @ LF # rest) = endMode tc Normal False cand rest"
proof (induction inner arbitrary: p)
  case Nil
  then show ?case by (simp add: endMode.simps)
next
  case (Cons c cs)
  show ?case
  proof (cases "c = CR \<and> lookahead (cs @ LF # rest) = Some LF")
    case True
    then have "cs = []"
      using Cons.prems by (cases cs) (simp_all add: lookahead_def)
    with True show ?thesis
      by (simp add: endMode.simps)
  next
    case False
    then show ?thesis
      using Cons.IH [of "c = BACKSLASH \<and> \<not> p"] Cons.prems
      by (auto simp add: endMode.simps)
  qed
qed

lemma endMode_item:
  assumes "itemOk x"
  shows "endMode tc Normal False cand (itemText x @ rest) = endMode tc Normal False cand rest"
proof (cases x)
  case (Space c)
  then have "jsonSpace c" using assms by simp
  then have "c \<noteq> QUOTE" "c \<noteq> SLASH" "c \<noteq> COMMA" "c \<noteq> RBRACE" "c \<noteq> RBRACKET"
    "c \<noteq> BACKSLASH"
    by (auto simp add: jsonSpace_def)
  then show ?thesis using Space \<open>jsonSpace c\<close>
    by (simp add: endMode.simps plain_def)
next
  case (LineComment inner)
  then have "LF \<notin> set inner" using assms by simp
  then show ?thesis using LineComment
    by (simp add: endMode.simps lookahead_def endMode_in_line)
next
  case (BlockComment inner)
  then have "\<not> hasBlockEnd (inner @ [STAR])" using assms by simp
  then show ?thesis using BlockComment
    by (simp add: endMode.simps lookahead_def endMode_in_block)
qed

lemma endMode_gap:
  "isGap g \<Longrightarrow> endMode tc Normal False cand (gapText g @ rest) = endMode tc Normal False cand rest"
proof (induction g)
  case Nil
  then show ?case by (simp add: gapText_def)
next
  case (Cons x g)
  then have x: "itemOk x" and g: "isGap g" by (simp_all add: isGap_def)
  have "endMode tc Normal False cand (gapText (x # g) @ rest)
      = endMode tc Normal False cand (itemText x @ gapText g @ rest)"
    by (simp add: gapText_def)
  also have "\<dots> = endMode tc Normal False cand (gapText g @ rest)"
    using x by (rule endMode_item)
  finally show ?case using Cons.IH [OF g] by simp
qed

lemma modeOf_Normal:
  "modeOf st = Normal \<longleftrightarrow> \<not> isInsideString st \<and> isInsideComment st = NoComment"
  by (simp add: modeOf_def split: comment_state.split)

lemma scanEnd_after_comma:
  assumes "\<not> isInsideString (scanEnd pre ws True)"
    and "isInsideComment (scanEnd pre ws True) = NoComment"
    and "isGap g"
  shows "\<not> isInsideString (scanEnd (pre @ COMMA # gapText g) ws True)
     \<and> isInsideComment (scanEnd (pre @ COMMA # gapText g) ws True) = NoComment
     \<and> (commaIndex (scanEnd (pre @ COMMA # gapText g) ws True) \<noteq> -1)
         = (commaIndex (scanEnd pre ws True) = -1)"
proof -
  let ?f = "scanEnd pre ws True" and ?F = "scanEnd (pre @ COMMA # gapText g) ws True"
  have m: "modeOf ?f = Normal" using assms(1,2) by (simp add: modeOf_Normal)
  have "(modeOf ?F, commaIndex ?F \<noteq> -1)
      = endMode True Normal (isEscaped pre (length pre)) (commaIndex ?f \<noteq> -1)
          (COMMA # gapText g)"
    using scanEnd_append [of pre "COMMA # gapText g" ws True] m
    by (simp add: boundarySafe_comma)
  also have "\<dots> = endMode True Normal False (commaIndex ?f = -1) (gapText g @ [])"
    by (simp add: endMode.simps plain_def jsonSpace_def)
  also have "\<dots> = endMode True Normal False (commaIndex ?f = -1) []"
    using assms(3) by (rule endMode_gap)
  finally have "modeOf ?F = Normal" "(commaIndex ?F \<noteq> -1) = (commaIndex ?f = -1)"
    by (simp_all add: endMode.simps)
  then show ?thesis by (simp add: modeOf_Normal)
qed

text \<open>
  C1, as amended. Let a comma stand where the scan of the text before it is outside
  of any string and comment, and let a gap follow it. When no earlier comma is
  pending, the comma becomes the candidate: before a closing \<open>}\<close> or \<open>]\<close> it is
  removed, one space standing for it when white space is preserved, and the gap,
  the bracket and the rest are as the stripper leaves them; before any other code
  unit that is neither JSON white space nor the start of a comment, and before the
  end of the input or a last comment that runs to it, the comma is kept. When an
  earlier comma is still pending, the comma ends that candidacy, does not become
  a candidate, and is kept whatever follows. After the comma and the gap the scan
  is again outside of any string and comment, and a comma is pending there exactly
  when none was pending before.
\<close>

theorem trailing_comma:
  assumes "\<not> isInsideString (scanEnd pre whitespace True)"
    and "isInsideComment (scanEnd pre whitespace True) = NoComment"
    and "isGap gap"
  shows "(commaIndex (scanEnd pre whitespace True) = -1 \<and> (c = RBRACE \<or> c = RBRACKET) \<longrightarrow>
        stripString (pre @ COMMA # gapText gap @ c # post) whitespace True
          = stripString pre whitespace True @ (if whitespace then [SPACE] else [])
            @ stripString (gapText gap) whitespace True @ c # stripString post whitespace True)
     \<and> (commaIndex (scanEnd pre whitespace True) = -1 \<and> c \<noteq> RBRACE \<and> c \<noteq> RBRACKET
          \<and> \<not> jsonSpace c
          \<and> \<not> (c = SLASH \<and> (lookahead post = Some SLASH \<or> lookahead post = Some STAR)) \<longrightarrow>
        stripString (pre @ COMMA # gapText gap @ c # post) whitespace True
          = stripString pre whitespace True @ COMMA # stripString (gapText gap) whitespace True
            @ (if c = COMMA then COMMA # stripString post whitespace True
               else stripString (c # post) whitespace True))
     \<and> (commaIndex (scanEnd pre whitespace True) = -1 \<and> (cmt = [] \<or> wholeComment cmt []) \<longrightarrow>
        stripString (pre @ COMMA # gapText gap @ cmt) whitespace True
          = stripString pre whitespace True @ COMMA
            # stripString (gapText gap @ cmt) whitespace True)
     \<and> (commaIndex (scanEnd pre whitespace True) \<noteq> -1 \<longrightarrow>
        stripString (pre @ COMMA # post) whitespace True
          = stripString pre whitespace True @ COMMA # stripString post whitespace True)
     \<and> \<not> isInsideString (scanEnd (pre @ COMMA # gapText gap) whitespace True)
     \<and> isInsideComment (scanEnd (pre @ COMMA # gapText gap) whitespace True) = NoComment
     \<and> (commaIndex (scanEnd (pre @ COMMA # gapText gap) whitespace True) \<noteq> -1)
         = (commaIndex (scanEnd pre whitespace True) = -1)"
proof -
  note b = stripString_before_comma [OF assms(1,2)]
  have g: "stripString (gapText gap) whitespace True = gapOut whitespace gap"
    using assms(3) by (rule stripString_gap)
  have e: "erase whitespace [COMMA] = (if whitespace then [SPACE] else [])"
    by (simp add: erase_def blank_def isWhitespace_def)
  have A: "stripString (pre @ COMMA # gapText gap @ c # post) whitespace True
          = stripString pre whitespace True @ (if whitespace then [SPACE] else [])
            @ stripString (gapText gap) whitespace True @ c # stripString post whitespace True"
    if "commaIndex (scanEnd pre whitespace True) = -1" "c = RBRACE \<or> c = RBRACKET"
    using that b [of "gapText gap @ c # post"] after_candidate_closer [OF assms(3) that(2), of whitespace post]
    by (simp add: g e stripString_scanner [of post])
  have C: "stripString (pre @ COMMA # gapText gap @ c # post) whitespace True
          = stripString pre whitespace True @ COMMA # stripString (gapText gap) whitespace True
            @ (if c = COMMA then COMMA # stripString post whitespace True
               else stripString (c # post) whitespace True)"
    if "commaIndex (scanEnd pre whitespace True) = -1" "c \<noteq> RBRACE" "c \<noteq> RBRACKET"
      "\<not> jsonSpace c"
      "\<not> (c = SLASH \<and> (lookahead post = Some SLASH \<or> lookahead post = Some STAR))"
    using that(1) b [of "gapText gap @ c # post"]
      after_candidate_other [OF assms(3) that(2-5), of whitespace]
    by (simp add: g stripString_scanner [of post] stripString_scanner [of "c # post"])
  have E: "stripString (pre @ COMMA # gapText gap @ cmt) whitespace True
          = stripString pre whitespace True @ COMMA
            # stripString (gapText gap @ cmt) whitespace True"
    if "commaIndex (scanEnd pre whitespace True) = -1" "cmt = [] \<or> wholeComment cmt []"
    using that(1) b [of "gapText gap @ cmt"]
      after_candidate_end [OF assms(3) that(2), of whitespace True "[COMMA]"]
      after_candidate_end [OF assms(3) that(2), of whitespace False "[]"]
    by (simp add: stripString_scanner [of "gapText gap @ cmt"])
  have B: "stripString (pre @ COMMA # post) whitespace True
          = stripString pre whitespace True @ COMMA # stripString post whitespace True"
    if "commaIndex (scanEnd pre whitespace True) \<noteq> -1"
    using that b [of post] by simp
  note G = scanEnd_after_comma [OF assms]
  from A C E B G show ?thesis by blast
qed

theorem trailing_comma_witness:
  "\<not> isInsideString (scanEnd (js ''[1'') True True)
   \<and> isInsideComment (scanEnd (js ''[1'') True True) = NoComment
   \<and> isGap [Space SPACE, BlockComment (js ''a,''), LineComment (js ''b'')]
   \<and> commaIndex (scanEnd (js ''[1'') True True) = -1
   \<and> stripString (js ''[1'' @ COMMA
         # gapText [Space SPACE, BlockComment (js ''a,''), LineComment (js ''b'')]
         @ RBRACKET # js '', 2'') True True
       = js ''[1'' @ SPACE # replicate 10 SPACE @ LF # RBRACKET # js '', 2''
   \<and> commaIndex (scanEnd (js ''[1'' @ COMMA
         # gapText [Space SPACE, BlockComment (js ''a,''), LineComment (js ''b'')]) True True)
       \<noteq> -1
   \<and> commaIndex (scanEnd (js ''[1,'') True True) \<noteq> -1
   \<and> stripString (js ''[1,'' @ COMMA # js '']'') True True = js ''[1,'' @ COMMA # js '']''"
proof -
  let ?g = "[Space SPACE, BlockComment (js ''a,''), LineComment (js ''b'')]"
  have h1: "\<not> isInsideString (scanEnd (js ''[1'') True True)" by code_simp
  have h2: "isInsideComment (scanEnd (js ''[1'') True True) = NoComment" by code_simp
  have h3: "isGap ?g" by code_simp
  have h4: "commaIndex (scanEnd (js ''[1'') True True) = -1" by code_simp
  have p: "stripString (js ''[1'') True True = js ''[1''" by code_simp
  have q: "stripString (gapText ?g) True True = replicate 10 SPACE @ [LF]" by code_simp
  have r: "stripString (js '', 2'') True True = js '', 2''" by code_simp
  have k1: "\<not> isInsideString (scanEnd (js ''[1,'') True True)" by code_simp
  have k2: "isInsideComment (scanEnd (js ''[1,'') True True) = NoComment" by code_simp
  have k3: "isGap []" by code_simp
  have k4: "commaIndex (scanEnd (js ''[1,'') True True) \<noteq> -1" by code_simp
  have p': "stripString (js ''[1,'') True True = js ''[1,''" by code_simp
  have r': "stripString (js '']'') True True = js '']''" by code_simp
  have a: "stripString (js ''[1'' @ COMMA
         # gapText [Space SPACE, BlockComment (js ''a,''), LineComment (js ''b'')]
         @ RBRACKET # js '', 2'') True True
       = js ''[1'' @ SPACE # replicate 10 SPACE @ LF # RBRACKET # js '', 2''"
    "commaIndex (scanEnd (js ''[1'' @ COMMA
         # gapText [Space SPACE, BlockComment (js ''a,''), LineComment (js ''b'')]) True True)
       \<noteq> -1"
    using h4 trailing_comma [OF h1 h2 h3, of RBRACKET "js '', 2''"]
    by (simp_all add: p q r del: replicate.simps)
  have b: "stripString (js ''[1,'' @ COMMA # js '']'') True True = js ''[1,'' @ COMMA # js '']''"
    using k4 trailing_comma [OF k1 k2 k3, of _ "js '']''"]
    by (simp add: p' r')
  from h1 h2 h3 h4 k4 a b show ?thesis by simp
qed

text \<open>
  C1 as stated fails on a comma that follows a comma: in \<open>[1,,]\<close> the second comma
  stands right before \<open>]\<close> and is kept, and in \<open>[1,,,]\<close> the third is removed.
\<close>

theorem trailing_comma_counterexample:
  "stripString (js ''[1,,]'') True True = js ''[1,,]''
   \<and> js ''[1,,]'' ! 3 = COMMA \<and> js ''[1,,]'' ! 4 = RBRACKET
   \<and> stripString (js ''[1,,]'') True True ! 3 = COMMA
   \<and> stripString (js ''[1,,]'') False True = js ''[1,,]''
   \<and> stripString (js ''[1,,,]'') True True = js ''[1,, ]''
   \<and> stripString (js ''[1,]'') True True = js ''[1 ]''"
  by code_simp

section \<open>Where the code departs from the specification\<close>

text \<open>
  C3. With \<open>whitespace\<close> false, the carriage return of a CR LF that ends a line
  comment is removed with the comment; a bare LF is kept, and so are both code
  units when white space is preserved.
\<close>

theorem crlf_after_line_comment:
  "stripString (js ''//c'' @ [CR, LF]) False False = [LF]
   \<and> stripString (js ''//c'' @ [LF]) False False = [LF]
   \<and> stripString (js ''//c'' @ [CR, LF]) True False = [SPACE, SPACE, SPACE, CR, LF]"
  by code_simp


end
